theory Spec2Isabelle
  imports Main "HOL-Library.Word" "HOL-Library.Char_ord" "HOL-Library.List_Lexorder"
    "HOL-Library.Multiset"
begin

section \<open>Data model of db/range\_del\_aggregator.cc\<close>

text \<open>
  User keys are \<open>Slice\<close>s. Two orders on them are at work in this file.
  \<^item> The user comparator \<open>ucmp_\<close>, which both kinds of map receive from the aggregator
    (\<open>icmp_.user_comparator()\<close>): a \<open>Comparator\<close> is modelled by its method
    \<open>Compare\<close>, and every function that calls \<open>ucmp_->Compare\<close> takes it as the
    parameter \<open>ucmp\<close>.
  \<^item> The order of the \<open>std::map\<close> of a collapsed map. The constructor of
    \<open>CollapsedRangeDelMap\<close> initialises \<open>ucmp_\<close> only and leaves \<open>rep_\<close> to its
    default constructor, so \<open>rep_\<close> is ordered by a default-constructed
    \<open>stl_wrappers::LessOfComparator\<close>, whatever \<open>ucmp\<close> is. That class is declared
    outside this file; its order is the \<open>linorder\<close> of the key type.
  \<open>Compare_of_order\<close> is the comparator of the key type's own order. On \<open>string\<close>
  in its lexicographic order (bytes compared by their code, a proper prefix smaller than
  its extensions) it is the bytewise comparator, the comparator of the tests, and with it
  the two orders agree.

  \<open>SequenceNumber\<close> is \<open>uint64_t\<close>; \<open>size_t\<close> is taken as 64 bits wide.
  \<open>RangeTombstone\<close>, \<open>ParsedInternalKey\<close>, \<open>ValueType\<close> and
  \<open>RangeDelPositioningMode\<close> are declared in headers outside this file; only the
  fields and the enumerators this file reads are kept (of the value types, the two the
  spec names). In the source the three fields of a tombstone end in an underscore
  (\<open>start_key_\<close>, \<open>end_key_\<close>, \<open>seq_\<close>), which is not a legal name here.
\<close>

type_synonym SequenceNumber = "64 word"
type_synonym size_t = "64 word"

record 'k RangeTombstone =
  start_key :: 'k
  end_key :: 'k
  seq :: SequenceNumber

datatype ValueType = kTypeValue | kTypeRangeDeletion

record 'k ParsedInternalKey =
  user_key :: 'k
  sequence :: SequenceNumber
  type :: ValueType

datatype RangeDelPositioningMode =
  kFullScan | kForwardTraversal | kBackwardTraversal | kBinarySearch

type_synonym 'k Comparator = "'k \<Rightarrow> 'k \<Rightarrow> int"

definition Compare_of_order :: "'k::linorder Comparator" where
  "Compare_of_order a b = (if a < b then - 1 else if a = b then 0 else 1)"


section \<open>UncollapsedRangeDelMap\<close>

text \<open>
  \<open>Rep\<close> is a \<open>std::multiset\<close> ordered by \<open>TombstoneStartKeyComparator\<close>, built
  from \<open>ucmp\<close>: a list kept sorted by start key under \<open>ucmp\<close>. \<open>emplace\<close> puts a new
  element at the upper bound of the elements whose start key is equivalent to its own,
  that is ahead of the first element with a strictly greater start key.
\<close>

definition TombstoneStartKeyComparator ::
    "'k Comparator \<Rightarrow> 'k RangeTombstone \<Rightarrow> 'k RangeTombstone \<Rightarrow> bool" where
  "TombstoneStartKeyComparator cmp a b = (cmp (start_key a) (start_key b) < 0)"

fun multiset_emplace :: "'k Comparator \<Rightarrow> 'k RangeTombstone \<Rightarrow> 'k RangeTombstone list
    \<Rightarrow> 'k RangeTombstone list" where
  "multiset_emplace ucmp t [] = [t]"
| "multiset_emplace ucmp t (u # us) =
     (if TombstoneStartKeyComparator ucmp t u then t # u # us
      else u # multiset_emplace ucmp t us)"

text \<open>The body of the range-for loop of \<open>ShouldDelete\<close>, with its \<open>break\<close> and
  its \<open>return true\<close>.\<close>

fun Uncollapsed_scan ::
    "'k Comparator \<Rightarrow> 'k ParsedInternalKey \<Rightarrow> 'k RangeTombstone list \<Rightarrow> bool" where
  "Uncollapsed_scan ucmp parsed [] = False"
| "Uncollapsed_scan ucmp parsed (t # ts) =
     (if ucmp (user_key parsed) (start_key t) < 0 then False
      else if sequence parsed < seq t \<and> ucmp (user_key parsed) (end_key t) < 0 then True
      else Uncollapsed_scan ucmp parsed ts)"

definition Uncollapsed_ShouldDelete ::
    "'k Comparator \<Rightarrow> 'k RangeTombstone list \<Rightarrow> 'k ParsedInternalKey
      \<Rightarrow> RangeDelPositioningMode \<Rightarrow> bool option" where
  \<comment> \<open>\<open>None\<close> is the failed \<open>assert(mode == kFullScan)\<close>.\<close>
  "Uncollapsed_ShouldDelete ucmp rep parsed mode =
     (if mode = kFullScan then Some (Uncollapsed_scan ucmp parsed rep) else None)"

fun Uncollapsed_IsRangeOverlapped ::
    "'k Comparator \<Rightarrow> 'k RangeTombstone list \<Rightarrow> 'k \<Rightarrow> 'k \<Rightarrow> bool" where
  "Uncollapsed_IsRangeOverlapped ucmp [] a b = False"
| "Uncollapsed_IsRangeOverlapped ucmp (t # ts) a b =
     (if ucmp a (end_key t) < 0 \<and> ucmp (start_key t) b \<le> 0
         \<and> ucmp (start_key t) (end_key t) < 0 then True
      else Uncollapsed_IsRangeOverlapped ucmp ts a b)"

definition Uncollapsed_AddTombstone ::
    "'k Comparator \<Rightarrow> 'k RangeTombstone \<Rightarrow> 'k RangeTombstone list \<Rightarrow> 'k RangeTombstone list" where
  "Uncollapsed_AddTombstone ucmp t rep = multiset_emplace ucmp t rep"

definition Uncollapsed_Size :: "'k RangeTombstone list \<Rightarrow> size_t" where
  "Uncollapsed_Size rep = word_of_nat (length rep)"

section \<open>CollapsedRangeDelMap\<close>

text \<open>
  \<open>Rep\<close> is a \<open>std::map\<close> from user key to seqno: a list of pairs with strictly
  ascending keys, in the order of the key type (the map's own comparator, see above).
  \<open>map_assign\<close> is \<open>rep_[k] = v\<close> (insert or overwrite), \<open>map_emplace\<close> is
  \<open>rep_.emplace(k, v)\<close> (insert, a no-op when the key exists), \<open>upper_bound\<close> is
  \<open>rep_.upper_bound(k)\<close>. The comparisons written \<open>ucmp_->Compare\<close> in the source are
  calls of \<open>ucmp\<close>.
\<close>

type_synonym 'k CollapsedRep = "('k \<times> SequenceNumber) list"

fun map_assign :: "'k::linorder \<Rightarrow> 'v \<Rightarrow> ('k \<times> 'v) list \<Rightarrow> ('k \<times> 'v) list" where
  "map_assign k v [] = [(k, v)]"
| "map_assign k v ((k', v') # xs) =
     (if k < k' then (k, v) # (k', v') # xs
      else if k = k' then (k, v) # xs
      else (k', v') # map_assign k v xs)"

fun map_emplace :: "'k::linorder \<Rightarrow> 'v \<Rightarrow> ('k \<times> 'v) list \<Rightarrow> ('k \<times> 'v) list" where
  "map_emplace k v [] = [(k, v)]"
| "map_emplace k v ((k', v') # xs) =
     (if k < k' then (k, v) # (k', v') # xs
      else if k = k' then (k', v') # xs
      else (k', v') # map_emplace k v xs)"

definition upper_bound :: "'k::linorder \<Rightarrow> ('k \<times> 'v) list \<Rightarrow> nat" where
  \<comment> \<open>the position of the first entry whose key is greater than \<open>k\<close>; the length of
      the list is \<open>end()\<close>\<close>
  "upper_bound k xs = length (takeWhile (\<lambda>e. fst e \<le> k) xs)"

subsection \<open>AddTombstone\<close>

text \<open>
  The iterator \<open>it\<close> of \<open>AddTombstone\<close> cuts the map in two: \<open>front\<close>, the entries
  in front of \<open>it\<close>, and \<open>rest\<close>, the entries from \<open>it\<close> on (\<open>rest = []\<close> is
  \<open>it == rep_.end()\<close>, \<open>front = []\<close> is \<open>it == rep_.begin()\<close>). The lambda
  \<open>prev_seq\<close> reads the entry in front of \<open>it\<close>.
\<close>

definition prev_seq :: "'k CollapsedRep \<Rightarrow> SequenceNumber" where
  "prev_seq front = (if front = [] then 0 else snd (last front))"

text \<open>
  The \<open>while\<close> loop over the transitions that overlap the new tombstone. The result is
  the map in front of \<open>it\<close>, \<open>end_seq\<close>, and the map from \<open>it\<close> on, at the exit.
  \<^item> \<open>rep_.erase(it)\<close> followed by \<open>continue\<close> drops the head of \<open>rest\<close> and leaves
    \<open>front\<close> as it is;
  \<^item> \<open>it->second = t.seq_\<close> followed by \<open>++it\<close> moves the raised entry to \<open>front\<close>;
  \<^item> \<open>++it\<close> alone moves the entry unchanged.
\<close>

fun AddTombstone_loop ::
    "'k Comparator \<Rightarrow> 'k RangeTombstone \<Rightarrow> 'k CollapsedRep \<Rightarrow> SequenceNumber \<Rightarrow> 'k CollapsedRep
      \<Rightarrow> 'k CollapsedRep \<times> SequenceNumber \<times> 'k CollapsedRep" where
  "AddTombstone_loop ucmp t front end_seq [] = (front, end_seq, [])"
| "AddTombstone_loop ucmp t front end_seq ((k, s) # rest) =
     (if ucmp k (end_key t) < 0 then
        (if seq t > s then
           (if seq t = prev_seq front then AddTombstone_loop ucmp t front s rest
            else AddTombstone_loop ucmp t (front @ [(k, seq t)]) s rest)
         else AddTombstone_loop ucmp t (front @ [(k, s)]) end_seq rest)
      else (front, end_seq, (k, s) # rest))"

definition Collapsed_AddTombstone ::
    "'k::linorder Comparator \<Rightarrow> 'k RangeTombstone \<Rightarrow> 'k CollapsedRep \<Rightarrow> 'k CollapsedRep" where
  \<comment> \<open>\<open>it = rep_.upper_bound(t.start_key_)\<close>; the assignment \<open>rep_[t.start_key_]\<close>
      changes the map in front of \<open>it\<close> only, and \<open>it\<close> stays on its entry.\<close>
  "Collapsed_AddTombstone ucmp t rep =
     (let it = upper_bound (start_key t) rep;
          front = take it rep;
          rest = drop it rep;
          (front1, end_seq1) =
             (if seq t > prev_seq front
              then (map_assign (start_key t) (seq t) front, prev_seq front)
              else (front, 0));
          (front2, end_seq2, rest2) = AddTombstone_loop ucmp t front1 end_seq1 rest
      in if seq t = prev_seq front2
         then map_emplace (end_key t) end_seq2 (front2 @ rest2)
         else front2 @ rest2)"

definition Collapsed_Size :: "'k CollapsedRep \<Rightarrow> size_t" where
  \<comment> \<open>\<open>rep_.size() - 1\<close> in \<open>size_t\<close>\<close>
  "Collapsed_Size rep = word_of_nat (length rep) - 1"

subsection \<open>ShouldDelete\<close>

text \<open>
  The cursor \<open>iter_\<close> is \<open>None\<close> for \<open>rep_.end()\<close> and \<open>Some i\<close> for the entry at
  position \<open>i\<close>. \<open>ShouldDelete\<close> returns its answer and the new cursor; \<open>None\<close> is a
  failed assertion (\<open>assert(false)\<close> under \<open>kFullScan\<close>, \<open>assert(iter_ != rep_.end())\<close>
  under the traversal modes, and the two assertions after the \<open>switch\<close>): the model is
  of a build that checks its assertions.
\<close>

fun forward_walk :: "'k Comparator \<Rightarrow> 'k \<Rightarrow> 'k CollapsedRep \<Rightarrow> nat \<Rightarrow> nat" where
  \<comment> \<open>\<open>while (next(iter_) != end && Compare(next(iter_)->first, user_key) <= 0) ++iter_\<close>,
      on the entries from \<open>iter_\<close> on\<close>
  "forward_walk ucmp x (e # e' # es) i =
     (if ucmp (fst e') x \<le> 0 then forward_walk ucmp x (e' # es) (Suc i) else i)"
| "forward_walk ucmp x es i = i"

fun backward_walk :: "'k Comparator \<Rightarrow> 'k \<Rightarrow> 'k CollapsedRep \<Rightarrow> nat \<Rightarrow> nat" where
  \<comment> \<open>\<open>while (iter_ != begin && Compare(user_key, iter_->first) < 0) --iter_\<close>\<close>
  "backward_walk ucmp x rep 0 = 0"
| "backward_walk ucmp x rep (Suc i) =
     (if ucmp x (fst (rep ! Suc i)) < 0 then backward_walk ucmp x rep i else Suc i)"

definition ShouldDelete_answer ::
    "'k Comparator \<Rightarrow> 'k CollapsedRep \<Rightarrow> 'k ParsedInternalKey \<Rightarrow> nat
      \<Rightarrow> (bool \<times> nat option) option" where
  \<comment> \<open>the code after the \<open>switch\<close>, with \<open>iter_\<close> at position \<open>j\<close>: the two assertions
      (\<open>Compare(iter_->first, user_key) <= 0\<close>, and \<open>Compare(user_key, next(iter_)->first) < 0\<close>
      unless \<open>next(iter_)\<close> is the end), then \<open>parsed.sequence < iter_->second\<close>\<close>
  "ShouldDelete_answer ucmp rep parsed j =
     (if ucmp (fst (rep ! j)) (user_key parsed) \<le> 0
         \<and> (Suc j = length rep \<or> ucmp (user_key parsed) (fst (rep ! Suc j)) < 0)
      then Some (sequence parsed < snd (rep ! j), Some j)
      else None)"

definition Collapsed_ShouldDelete ::
    "'k::linorder Comparator \<Rightarrow> 'k CollapsedRep \<Rightarrow> nat option \<Rightarrow> 'k ParsedInternalKey
      \<Rightarrow> RangeDelPositioningMode \<Rightarrow> (bool \<times> nat option) option" where
  "Collapsed_ShouldDelete ucmp rep iter parsed mode0 =
     (let x = user_key parsed;
          mode = (if iter = None \<and> (mode0 = kForwardTraversal \<or> mode0 = kBackwardTraversal)
                  then kBinarySearch else mode0)
      in case mode of
           kFullScan \<Rightarrow> None
         | kForwardTraversal \<Rightarrow>
             (case iter of
                None \<Rightarrow> None
              | Some i \<Rightarrow>
                  if i = 0 \<and> ucmp x (fst (rep ! i)) < 0 then Some (False, Some i)
                  else ShouldDelete_answer ucmp rep parsed (forward_walk ucmp x (drop i rep) i))
         | kBackwardTraversal \<Rightarrow>
             (case iter of
                None \<Rightarrow> None
              | Some i \<Rightarrow>
                  let j = backward_walk ucmp x rep i
                  in if j = 0 \<and> ucmp x (fst (rep ! j)) < 0 then Some (False, Some j)
                     else ShouldDelete_answer ucmp rep parsed j)
         | kBinarySearch \<Rightarrow>
             (let u = upper_bound x rep
              in if u = 0 then Some (False, (if rep = [] then None else Some 0))
                 else ShouldDelete_answer ucmp rep parsed (u - 1)))"

subsection \<open>Iterator\<close>

text \<open>
  A \<open>CollapsedRangeDelMap::Iterator\<close> is the list of the entries from \<open>iter_\<close> to the
  end of the map. It starts at \<open>rep.begin()\<close>, without skipping sentinels.
\<close>

definition Iterator_Valid :: "'k CollapsedRep \<Rightarrow> bool" where
  \<comment> \<open>\<open>iter_ != rep_.end() && std::next(iter_) != rep_.end()\<close>\<close>
  "Iterator_Valid it = (case it of e # e' # es \<Rightarrow> True | _ \<Rightarrow> False)"

fun SeekPastSentinels :: "'k CollapsedRep \<Rightarrow> 'k CollapsedRep" where
  "SeekPastSentinels (e # e' # es) =
     (if snd e = 0 then SeekPastSentinels (e' # es) else e # e' # es)"
| "SeekPastSentinels es = es"

definition Iterator_Next :: "'k CollapsedRep \<Rightarrow> 'k CollapsedRep" where
  "Iterator_Next it = SeekPastSentinels (tl it)"

definition Iterator_Tombstone :: "'k CollapsedRep \<Rightarrow> 'k RangeTombstone" where
  "Iterator_Tombstone it =
     \<lparr>start_key = fst (hd it), end_key = fst (hd (tl it)), seq = snd (hd it)\<rparr>"

lemma length_SeekPastSentinels: "length (SeekPastSentinels es) \<le> length es"
  by (induction es rule: SeekPastSentinels.induct) auto

text \<open>\<open>for (; it->Valid(); it->Next()) out.push_back(it->Tombstone())\<close>, the way the
  tests and \<open>AddToBuilder\<close> drain an iterator.\<close>

function Iterator_drain :: "'k CollapsedRep \<Rightarrow> 'k RangeTombstone list" where
  "Iterator_drain it =
     (if Iterator_Valid it then Iterator_Tombstone it # Iterator_drain (Iterator_Next it)
      else [])"
  by pat_completeness auto
termination
proof (relation "measure length")
  show "wf (measure length)" by simp
next
  fix it :: "'k CollapsedRep"
  assume "Iterator_Valid it"
  then obtain e es where "it = e # es"
    by (auto simp: Iterator_Valid_def split: list.splits)
  then show "(Iterator_Next it, it) \<in> measure length"
    using length_SeekPastSentinels [of es] by (simp add: Iterator_Next_def)
qed

definition Collapsed_NewIterator_drain :: "'k CollapsedRep \<Rightarrow> 'k RangeTombstone list" where
  "Collapsed_NewIterator_drain rep = Iterator_drain rep"

section \<open>RangeDelAggregator\<close>

text \<open>
  A stripe holds one of the two map kinds (\<open>NewRangeDelMap\<close> chooses by
  \<open>collapse_deletions_\<close>); a collapsed map carries its cursor \<open>iter_\<close>.
  \<open>iter_\<close> is an iterator of a \<open>std::map\<close>: an insertion leaves it on its entry,
  and \<open>rep_.erase\<close> of the entry it is on leaves it invalid, since \<open>AddTombstone\<close>
  never assigns it. \<open>Collapsed rep iter\<close> is a collapsed map whose \<open>iter_\<close> is
  \<open>rep_.end()\<close> (\<open>None\<close>) or on the entry at a position of \<open>rep\<close>;
  \<open>Collapsed_dangling rep\<close> is a collapsed map whose \<open>iter_\<close> was on an entry that
  has been erased.
  \<open>StripeMap\<close> is a \<open>std::map\<close> from the stripe's upper bound to its map.
  \<open>pinned_iters\<close> are the input iterators kept alive by \<open>pinned_iters_mgr_\<close>.

  \<open>kMaxSequenceNumber\<close> is declared outside this file: the functions that use it
  take it as the parameter \<open>kMax\<close>. So are \<open>ParseInternalKey\<close>, the parameter
  \<open>parse\<close>, \<open>RangeDelMap::IsEmpty\<close>, the parameter \<open>IsEmpty\<close>, and
  \<open>IsValueType\<close>. The parameter \<open>ucmp\<close> is \<open>icmp_.user_comparator()\<close>, which
  \<open>NewRangeDelMap\<close> hands to every map it creates.
\<close>

datatype 'k RangeDelMap =
  Uncollapsed "'k RangeTombstone list"
| Collapsed "'k CollapsedRep" "nat option"
| Collapsed_dangling "'k CollapsedRep"

type_synonym 'k StripeMap = "(SequenceNumber \<times> 'k RangeDelMap) list"

record ('k, 'i) Rep =
  stripe_map :: "'k StripeMap"
  pinned_iters :: "'i list"

record ('k, 'i) RangeDelAggregator =
  upper_bound_seq :: SequenceNumber
  collapse_deletions :: bool
  rep :: "('k, 'i) Rep option"


definition NewRangeDelMap :: "bool \<Rightarrow> 'k RangeDelMap" where
  \<comment> \<open>the constructor of a collapsed map calls \<open>InvalidatePosition\<close>\<close>
  "NewRangeDelMap collapse = (if collapse then Collapsed [] None else Uncollapsed [])"

fun position_of :: "'k \<Rightarrow> ('k \<times> 'v) list \<Rightarrow> nat option" where
  \<comment> \<open>the position of the entry with the key \<open>k\<close>\<close>
  "position_of k [] = None"
| "position_of k (e # es) = (if fst e = k then Some 0 else map_option Suc (position_of k es))"

text \<open>
  \<open>AddTombstone\<close> on a map with its cursor. The cursor of a collapsed map stays on
  its entry, whose position in the new map is found by its key; when the loop of
  \<open>AddTombstone\<close> has erased that entry, the key is gone and the cursor dangles.
  (An erased key compares less than \<open>t.end_key_\<close> under \<open>ucmp\<close> and is greater than
  \<open>t.start_key_\<close> in the map, so it is neither of the two keys the call inserts, for
  a comparator that compares no key less than itself.)
\<close>

definition RangeDelMap_AddTombstone ::
    "'k::linorder Comparator \<Rightarrow> 'k RangeTombstone \<Rightarrow> 'k RangeDelMap \<Rightarrow> 'k RangeDelMap" where
  "RangeDelMap_AddTombstone ucmp t m =
     (case m of
        Uncollapsed r \<Rightarrow> Uncollapsed (Uncollapsed_AddTombstone ucmp t r)
      | Collapsed r iter \<Rightarrow>
          (case iter of
             None \<Rightarrow> Collapsed (Collapsed_AddTombstone ucmp t r) None
           | Some i \<Rightarrow>
               (case position_of (fst (r ! i)) (Collapsed_AddTombstone ucmp t r) of
                  Some j \<Rightarrow> Collapsed (Collapsed_AddTombstone ucmp t r) (Some j)
                | None \<Rightarrow> Collapsed_dangling (Collapsed_AddTombstone ucmp t r)))
      | Collapsed_dangling r \<Rightarrow> Collapsed_dangling (Collapsed_AddTombstone ucmp t r))"

definition RangeDelMap_InvalidatePosition :: "'k RangeDelMap \<Rightarrow> 'k RangeDelMap" where
  \<comment> \<open>\<open>iter_ = rep_.end()\<close>\<close>
  "RangeDelMap_InvalidatePosition m =
     (case m of
        Uncollapsed r \<Rightarrow> Uncollapsed r
      | Collapsed r iter \<Rightarrow> Collapsed r None
      | Collapsed_dangling r \<Rightarrow> Collapsed r None)"

text \<open>
  \<open>ShouldDelete\<close> on a map with its cursor. With a dangling \<open>iter_\<close> the mode
  \<open>kBinarySearch\<close> compares \<open>iter_\<close> with \<open>rep_.end()\<close> and then assigns it, without
  reading an entry through it; the traversal modes read the erased entry through it,
  which is undefined (\<open>None\<close>); \<open>kFullScan\<close> fails its assertion as on every
  collapsed map.
\<close>

definition RangeDelMap_ShouldDelete ::
    "'k::linorder Comparator \<Rightarrow> 'k RangeDelMap \<Rightarrow> 'k ParsedInternalKey
      \<Rightarrow> RangeDelPositioningMode \<Rightarrow> (bool \<times> 'k RangeDelMap) option" where
  "RangeDelMap_ShouldDelete ucmp m parsed mode =
     (case m of
        Uncollapsed r \<Rightarrow>
          map_option (\<lambda>b. (b, Uncollapsed r)) (Uncollapsed_ShouldDelete ucmp r parsed mode)
      | Collapsed r iter \<Rightarrow>
          map_option (\<lambda>(b, iter'). (b, Collapsed r iter'))
            (Collapsed_ShouldDelete ucmp r iter parsed mode)
      | Collapsed_dangling r \<Rightarrow>
          (if mode = kBinarySearch
           then map_option (\<lambda>(b, iter'). (b, Collapsed r iter'))
                  (Collapsed_ShouldDelete ucmp r None parsed kBinarySearch)
           else None))"

definition InitRep :: "SequenceNumber \<Rightarrow> bool \<Rightarrow> SequenceNumber list \<Rightarrow> ('k, 'i) Rep" where
  "InitRep kMax collapse snapshots =
     \<lparr>stripe_map =
        map_emplace kMax (NewRangeDelMap collapse)
          (foldl (\<lambda>m snapshot. map_emplace snapshot (NewRangeDelMap collapse) m) [] snapshots),
      pinned_iters = []\<rparr>"


definition RangeDelAggregator_snapshot ::
    "SequenceNumber \<Rightarrow> bool \<Rightarrow> ('k, 'i) RangeDelAggregator" where
  \<comment> \<open>the constructor that takes one snapshot: \<open>rep_\<close> stays null\<close>
  "RangeDelAggregator_snapshot snapshot collapse =
     \<lparr>upper_bound_seq = snapshot, collapse_deletions = collapse, rep = None\<rparr>"

definition GetRangeDelMap :: "SequenceNumber \<Rightarrow> 'k StripeMap \<Rightarrow> nat option" where
  \<comment> \<open>the position of the stripe in the stripe map; \<open>None\<close> is the failed
      \<open>assert(iter != rep_->stripe_map_.end())\<close>\<close>
  "GetRangeDelMap sq sm =
     (let iter = (if sq > 0 then upper_bound (sq - 1) sm else 0)
      in if iter < length sm then Some iter else None)"

definition Stripe_AddTombstone ::
    "'k::linorder Comparator \<Rightarrow> 'k RangeTombstone \<Rightarrow> 'k StripeMap \<Rightarrow> 'k StripeMap option" where
  \<comment> \<open>\<open>GetRangeDelMap(tombstone.seq_).AddTombstone(std::move(tombstone))\<close>\<close>
  "Stripe_AddTombstone ucmp t sm =
     (case GetRangeDelMap (seq t) sm of
        None \<Rightarrow> None
      | Some i \<Rightarrow>
          Some (sm[i := (fst (sm ! i), RangeDelMap_AddTombstone ucmp t (snd (sm ! i)))]))"

definition ShouldDeleteImpl ::
    "(ValueType \<Rightarrow> bool) \<Rightarrow> ('k RangeDelMap \<Rightarrow> bool) \<Rightarrow> 'k::linorder Comparator \<Rightarrow> 'k StripeMap
      \<Rightarrow> 'k ParsedInternalKey \<Rightarrow> RangeDelPositioningMode \<Rightarrow> (bool \<times> 'k StripeMap) option" where
  \<comment> \<open>the overload on a parsed key, with \<open>rep_ != nullptr\<close>; it returns the answer and
      the stripe map with the moved cursor; \<open>None\<close> is the failed
      \<open>assert(IsValueType(parsed.type))\<close> or a failed assertion further down\<close>
  "ShouldDeleteImpl IsValueType IsEmpty ucmp sm parsed mode =
     (if \<not> IsValueType (type parsed) then None
      else case GetRangeDelMap (sequence parsed) sm of
        None \<Rightarrow> None
      | Some i \<Rightarrow>
          if IsEmpty (snd (sm ! i)) then Some (False, sm)
          else map_option (\<lambda>(b, m'). (b, sm[i := (fst (sm ! i), m')]))
                 (RangeDelMap_ShouldDelete ucmp (snd (sm ! i)) parsed mode))"





definition RangeDelMap_Size :: "'k RangeDelMap \<Rightarrow> size_t" where
  "RangeDelMap_Size m =
     (case m of
        Uncollapsed r \<Rightarrow> Uncollapsed_Size r
      | Collapsed r iter \<Rightarrow> Collapsed_Size r
      | Collapsed_dangling r \<Rightarrow> Collapsed_Size r)"

section \<open>Notions for the statements about the maps\<close>

text \<open>
  A \<open>std::map\<close> keeps its keys strictly ascending: \<open>ascending\<close>. \<open>seq_at m x\<close> is the
  seqno a collapsed map assigns to the user key \<open>x\<close>: the seqno of the last entry whose
  key is at most \<open>x\<close>, and 0 in front of the first entry. \<open>seq_from p m x\<close> is the same
  with \<open>p\<close> in front of the first entry. A map is \<open>sentinel_closed\<close> when it has no
  entries or its last entry has the seqno 0.
\<close>

definition ascending :: "('k::linorder \<times> 'v) list \<Rightarrow> bool" where
  "ascending xs = sorted_wrt (<) (map fst xs)"

definition seq_at :: "'k::linorder CollapsedRep \<Rightarrow> 'k \<Rightarrow> SequenceNumber" where
  "seq_at m x = prev_seq (takeWhile (\<lambda>e. fst e \<le> x) m)"

definition seq_from :: "SequenceNumber \<Rightarrow> 'k::linorder CollapsedRep \<Rightarrow> 'k \<Rightarrow> SequenceNumber" where
  "seq_from p m x =
     (let ys = takeWhile (\<lambda>e. fst e \<le> x) m in if ys = [] then p else snd (last ys))"

definition sentinel_closed :: "'k CollapsedRep \<Rightarrow> bool" where
  "sentinel_closed m = (m = [] \<or> snd (last m) = 0)"

text \<open>The last step of \<open>AddTombstone\<close>, on the outcome of its loop.\<close>

definition AddTombstone_end ::
    "'k::linorder RangeTombstone \<Rightarrow> 'k CollapsedRep \<Rightarrow> SequenceNumber \<Rightarrow> 'k CollapsedRep \<Rightarrow> 'k CollapsedRep" where
  "AddTombstone_end t front2 end_seq2 rest2 =
     (if seq t = prev_seq front2 then map_emplace (end_key t) end_seq2 (front2 @ rest2)
      else front2 @ rest2)"

text \<open>
  \<open>cover_seq ts x\<close> is the greatest seqno among the tombstones of \<open>ts\<close> whose interval
  holds \<open>x\<close>, and 0 when there is none. A \<open>std::multiset\<close> ordered by start key is
  \<open>start_sorted\<close>.
\<close>

definition cover_seq :: "'k::linorder RangeTombstone list \<Rightarrow> 'k \<Rightarrow> SequenceNumber" where
  "cover_seq ts x =
     foldl (\<lambda>v t. if start_key t \<le> x \<and> x < end_key t then max (seq t) v else v) 0 ts"

definition start_sorted :: "'k::linorder RangeTombstone list \<Rightarrow> bool" where
  "start_sorted ts = sorted_wrt (\<lambda>a b. start_key a \<le> start_key b) ts"

section \<open>Example states\<close>

text \<open>
  Concrete inputs for the instances below. \<open>example_kMax\<close> is \<open>2^56 - 1\<close>. The raw
  keys of \<open>example_parse\<close> are either a decoded internal key or garbage (\<open>None\<close>).
\<close>

definition example_kMax :: SequenceNumber where
  "example_kMax = 72057594037927935"

definition example_stripes :: "string StripeMap" where
  "example_stripes =
     [(5, Collapsed [] None),
      (15, Collapsed [(''a'', 10), (''c'', 0)] None),
      (example_kMax, Collapsed [] None)]"



definition example_ReverseBytewise :: "string Comparator" where
  \<comment> \<open>the reverse bytewise comparator of the test OverlapAboveMiddleReverse\<close>
  "example_ReverseBytewise a b = Compare_of_order b a"


section \<open>The comparator of the key type's order\<close>

lemma Compare_of_order_less [simp]: "(Compare_of_order a b < 0) = (a < b)"
  by (auto simp: Compare_of_order_def)

lemma Compare_of_order_le [simp]: "(Compare_of_order a b \<le> 0) = (a \<le> b)"
  by (auto simp: Compare_of_order_def)

lemma TombstoneStartKeyComparator_order [simp]:
  "TombstoneStartKeyComparator Compare_of_order a b = (start_key a < start_key b)"
  by (simp add: TombstoneStartKeyComparator_def)

section \<open>Size of a collapsed map\<close>

lemma unat_word_of_nat_minus_one:
  "unat (word_of_nat n - (1 :: 64 word)) = (n + (2 ^ 64 - 1)) mod 2 ^ 64"
proof -
  define k where "k = n mod 2 ^ 64"
  have klt: "k < 2 ^ 64" by (simp add: k_def)
  have "unat (word_of_nat n - (1 :: 64 word)) = (if 1 \<le> k then k - 1 else k + 2 ^ 64 - 1)"
    by (simp add: unat_sub_if' unat_of_nat k_def)
  also have "\<dots> = (k + (2 ^ 64 - 1)) mod 2 ^ 64"
  proof (cases "1 \<le> k")
    case True
    then have "k + (2 ^ 64 - 1) = (k - 1) + 2 ^ 64" by simp
    then have "(k + (2 ^ 64 - 1)) mod 2 ^ 64 = (k - 1) mod 2 ^ 64" by (metis mod_add_self2)
    also have "\<dots> = k - 1" using klt by simp
    finally show ?thesis using True by simp
  next
    case False
    then have "k = 0" by simp
    then show ?thesis by simp
  qed
  also have "\<dots> = (n + (2 ^ 64 - 1)) mod 2 ^ 64"
    unfolding k_def by (rule mod_add_left_eq)
  finally show ?thesis .
qed

text \<open>
  C9. \<open>CollapsedRangeDelMap::Size\<close> is the number of entries of the map minus one in
  64-bit unsigned arithmetic, for every map: the subtraction wraps around on the map
  without entries, whose size is reported as \<open>2^64 - 1\<close>.
\<close>

theorem C9_Collapsed_Size:
  "unat (Collapsed_Size (m :: 'k CollapsedRep)) = (length m + (2 ^ 64 - 1)) mod 2 ^ 64
   \<and> unat (Collapsed_Size ([] :: 'k CollapsedRep)) = 2 ^ 64 - 1"
proof
  show "unat (Collapsed_Size m) = (length m + (2 ^ 64 - 1)) mod 2 ^ 64"
    by (simp add: Collapsed_Size_def unat_word_of_nat_minus_one)
next
  show "unat (Collapsed_Size ([] :: 'k CollapsedRep)) = 2 ^ 64 - 1"
    using unat_word_of_nat_minus_one [of 0] by (simp add: Collapsed_Size_def)
qed

section \<open>Tombstones of one seqno in a collapsed map\<close>

text \<open>
  C5. The tombstones \<open>[a, b) @ 5\<close> and \<open>[b, c) @ 5\<close>, added in this order to a
  collapsed map without entries under the bytewise comparator: the map holds the three
  entries \<open>a \<rightarrow> 5\<close>, \<open>b \<rightarrow> 5\<close>, \<open>c \<rightarrow> 0\<close>, and its iterator yields the two tombstones
  \<open>(a, b, 5)\<close> and \<open>(b, c, 5)\<close>. The entry at \<open>b\<close> is not merged away.
\<close>

theorem C5_contiguous_not_merged:
  "foldl (\<lambda>m t. Collapsed_AddTombstone Compare_of_order t m) []
     [\<lparr>start_key = ''a'', end_key = ''b'', seq = 5\<rparr>,
      \<lparr>start_key = ''b'', end_key = ''c'', seq = 5\<rparr>]
   = [(''a'', 5), (''b'', 5), (''c'', 0)]
   \<and> Collapsed_NewIterator_drain [(''a'', 5), (''b'', 5), (''c'', 0)]
   = [\<lparr>start_key = ''a'', end_key = ''b'', seq = 5\<rparr>,
      \<lparr>start_key = ''b'', end_key = ''c'', seq = 5\<rparr>]"
  by (simp add: Collapsed_AddTombstone_def upper_bound_def prev_seq_def
      Collapsed_NewIterator_drain_def Iterator_Valid_def Iterator_Next_def Iterator_Tombstone_def)

text \<open>
  C1. The tombstones \<open>[a, d) @ 5\<close> and \<open>[b, c) @ 5\<close>, added in this order to both
  kinds of map: the collapsed map is \<open>a \<rightarrow> 5\<close>, \<open>c \<rightarrow> 0\<close>, \<open>d \<rightarrow> 0\<close>, and for the key
  \<open>c @ 4\<close> the collapsed map in binary-search mode answers false while the uncollapsed
  map in full-scan mode answers true.
\<close>

theorem C1_collapsed_differs_from_uncollapsed:
  "foldl (\<lambda>m t. Collapsed_AddTombstone Compare_of_order t m) []
     [\<lparr>start_key = ''a'', end_key = ''d'', seq = 5\<rparr>,
      \<lparr>start_key = ''b'', end_key = ''c'', seq = 5\<rparr>]
   = [(''a'', 5), (''c'', 0), (''d'', 0)]
   \<and> Collapsed_ShouldDelete Compare_of_order [(''a'', 5), (''c'', 0), (''d'', 0)] None
       \<lparr>user_key = ''c'', sequence = 4, type = kTypeValue\<rparr> kBinarySearch
     = Some (False, Some 1)
   \<and> Uncollapsed_ShouldDelete Compare_of_order
       (foldl (\<lambda>m t. Uncollapsed_AddTombstone Compare_of_order t m) []
          [\<lparr>start_key = ''a'', end_key = ''d'', seq = 5\<rparr>,
           \<lparr>start_key = ''b'', end_key = ''c'', seq = 5\<rparr>])
       \<lparr>user_key = ''c'', sequence = 4, type = kTypeValue\<rparr> kFullScan
     = Some True"
  by (simp add: Collapsed_AddTombstone_def upper_bound_def prev_seq_def
      Collapsed_ShouldDelete_def ShouldDelete_answer_def Uncollapsed_ShouldDelete_def
      Uncollapsed_AddTombstone_def)

text \<open>
  C6. The same two tombstones in the two orders: added as \<open>[a, d) @ 5\<close>,
  \<open>[b, c) @ 5\<close> the map is \<open>a \<rightarrow> 5\<close>, \<open>c \<rightarrow> 0\<close>, \<open>d \<rightarrow> 0\<close> and the key \<open>c @ 4\<close> is
  not deleted; added as \<open>[b, c) @ 5\<close>, \<open>[a, d) @ 5\<close> the map is \<open>a \<rightarrow> 5\<close>,
  \<open>b \<rightarrow> 5\<close>, \<open>d \<rightarrow> 0\<close> and the key \<open>c @ 4\<close> is deleted.
\<close>

theorem C6_insertion_order_changes_coverage:
  "Collapsed_ShouldDelete Compare_of_order
     (foldl (\<lambda>m t. Collapsed_AddTombstone Compare_of_order t m) []
        [\<lparr>start_key = ''a'', end_key = ''d'', seq = 5\<rparr>,
         \<lparr>start_key = ''b'', end_key = ''c'', seq = 5\<rparr>])
     None \<lparr>user_key = ''c'', sequence = 4, type = kTypeValue\<rparr> kBinarySearch
   = Some (False, Some 1)
   \<and> foldl (\<lambda>m t. Collapsed_AddTombstone Compare_of_order t m) []
        [\<lparr>start_key = ''b'', end_key = ''c'', seq = 5\<rparr>,
         \<lparr>start_key = ''a'', end_key = ''d'', seq = 5\<rparr>]
     = [(''a'', 5), (''b'', 5), (''d'', 0)]
   \<and> Collapsed_ShouldDelete Compare_of_order [(''a'', 5), (''b'', 5), (''d'', 0)]
       None \<lparr>user_key = ''c'', sequence = 4, type = kTypeValue\<rparr> kBinarySearch
     = Some (True, Some 1)"
  by (simp add: Collapsed_AddTombstone_def upper_bound_def prev_seq_def
      Collapsed_ShouldDelete_def ShouldDelete_answer_def)

section \<open>Empty tombstones in a collapsed map\<close>

text \<open>
  C4. The map \<open>b \<rightarrow> 3\<close>, \<open>d \<rightarrow> 0\<close> is the collapsed map after \<open>[b, d) @ 3\<close>. Adding the
  empty tombstone \<open>[c, c) @ 5\<close> installs \<open>c \<rightarrow> 5\<close>: the key \<open>c @ 4\<close>, not deleted
  before, is deleted after. In the uncollapsed map the same add leaves the answer false.
\<close>

theorem C4_empty_tombstone_adds_coverage:
  "Collapsed_AddTombstone Compare_of_order
     \<lparr>start_key = ''b'', end_key = ''d'', seq = 3\<rparr> []
   = [(''b'', 3), (''d'', 0)]
   \<and> Collapsed_ShouldDelete Compare_of_order [(''b'', 3), (''d'', 0)] None
       \<lparr>user_key = ''c'', sequence = 4, type = kTypeValue\<rparr> kBinarySearch
     = Some (False, Some 0)
   \<and> Collapsed_AddTombstone Compare_of_order
       \<lparr>start_key = ''c'', end_key = ''c'', seq = 5\<rparr> [(''b'', 3), (''d'', 0)]
     = [(''b'', 3), (''c'', 5), (''d'', 0)]
   \<and> Collapsed_ShouldDelete Compare_of_order [(''b'', 3), (''c'', 5), (''d'', 0)] None
       \<lparr>user_key = ''c'', sequence = 4, type = kTypeValue\<rparr> kBinarySearch
     = Some (True, Some 1)
   \<and> Uncollapsed_ShouldDelete Compare_of_order
       (Uncollapsed_AddTombstone Compare_of_order
          \<lparr>start_key = ''c'', end_key = ''c'', seq = 5\<rparr>
          (Uncollapsed_AddTombstone Compare_of_order
             \<lparr>start_key = ''b'', end_key = ''d'', seq = 3\<rparr> []))
       \<lparr>user_key = ''c'', sequence = 4, type = kTypeValue\<rparr> kFullScan
     = Some False"
  by (simp add: Collapsed_AddTombstone_def upper_bound_def prev_seq_def
      Collapsed_ShouldDelete_def ShouldDelete_answer_def Uncollapsed_ShouldDelete_def
      Uncollapsed_AddTombstone_def)

text \<open>
  C2. The empty tombstone \<open>[a, a) @ 5\<close> added to the map without entries leaves the
  single entry \<open>a \<rightarrow> 5\<close>; adding \<open>[c, d) @ 7\<close> then gives \<open>a \<rightarrow> 5\<close>, \<open>c \<rightarrow> 7\<close>,
  \<open>d \<rightarrow> 5\<close>. Both maps end in an entry whose seqno is not 0.
\<close>

theorem C2_no_sentinel_after_empty_tombstone:
  "Collapsed_AddTombstone Compare_of_order
     \<lparr>start_key = ''a'', end_key = ''a'', seq = 5\<rparr> []
   = [(''a'', 5)]
   \<and> Collapsed_AddTombstone Compare_of_order
       \<lparr>start_key = ''c'', end_key = ''d'', seq = 7\<rparr> [(''a'', 5)]
     = [(''a'', 5), (''c'', 7), (''d'', 5)]
   \<and> snd (last [(''a'', 5 :: SequenceNumber), (''c'', 7), (''d'', 5)]) \<noteq> 0"
  by (simp add: Collapsed_AddTombstone_def upper_bound_def prev_seq_def)

text \<open>
  C7. The map \<open>a \<rightarrow> 5\<close>, \<open>z \<rightarrow> 0\<close> is the collapsed map after \<open>[a, z) @ 5\<close>. The empty
  tombstone \<open>[b, b) @ 5\<close> added once gives \<open>a \<rightarrow> 5\<close>, \<open>b \<rightarrow> 0\<close>, \<open>z \<rightarrow> 0\<close>; added a
  second time it gives \<open>a \<rightarrow> 5\<close>, \<open>b \<rightarrow> 5\<close>, \<open>z \<rightarrow> 0\<close>, a different map.
\<close>

theorem C7_second_add_changes_map:
  "Collapsed_AddTombstone Compare_of_order
     \<lparr>start_key = ''a'', end_key = ''z'', seq = 5\<rparr> []
   = [(''a'', 5), (''z'', 0)]
   \<and> Collapsed_AddTombstone Compare_of_order
       \<lparr>start_key = ''b'', end_key = ''b'', seq = 5\<rparr> [(''a'', 5), (''z'', 0)]
     = [(''a'', 5), (''b'', 0), (''z'', 0)]
   \<and> Collapsed_AddTombstone Compare_of_order
       \<lparr>start_key = ''b'', end_key = ''b'', seq = 5\<rparr> [(''a'', 5), (''b'', 0), (''z'', 0)]
     = [(''a'', 5), (''b'', 5), (''z'', 0)]"
  by (simp add: Collapsed_AddTombstone_def upper_bound_def prev_seq_def)

section \<open>A collapsed map under another user comparator\<close>

text \<open>
  Under the reverse bytewise comparator the tombstone \<open>[d, a) @ 5\<close> covers the key
  \<open>c\<close>. The map of the collapsed kind keeps its own order: the add leaves \<open>a \<rightarrow> 0\<close>,
  \<open>d \<rightarrow> 5\<close>, and \<open>ShouldDelete\<close> for \<open>c @ 4\<close> fails its first assertion after the binary
  search, while the uncollapsed map answers true.
\<close>

lemma Collapsed_map_keeps_its_own_order:
  "Collapsed_AddTombstone example_ReverseBytewise
     \<lparr>start_key = ''d'', end_key = ''a'', seq = 5\<rparr> []
   = [(''a'', 0), (''d'', 5)]
   \<and> Collapsed_ShouldDelete example_ReverseBytewise [(''a'', 0), (''d'', 5)] None
       \<lparr>user_key = ''c'', sequence = 4, type = kTypeValue\<rparr> kBinarySearch
     = None
   \<and> Uncollapsed_ShouldDelete example_ReverseBytewise
       (Uncollapsed_AddTombstone example_ReverseBytewise
          \<lparr>start_key = ''d'', end_key = ''a'', seq = 5\<rparr> [])
       \<lparr>user_key = ''c'', sequence = 4, type = kTypeValue\<rparr> kFullScan
     = Some True"
  by (simp add: Collapsed_AddTombstone_def upper_bound_def prev_seq_def
      Collapsed_ShouldDelete_def ShouldDelete_answer_def Uncollapsed_ShouldDelete_def
      Uncollapsed_AddTombstone_def example_ReverseBytewise_def)

section \<open>The cursor of a collapsed map across AddTombstone\<close>

text \<open>
  The map \<open>a \<rightarrow> 5\<close>, \<open>b \<rightarrow> 0\<close>, \<open>c \<rightarrow> 7\<close>, \<open>e \<rightarrow> 0\<close> and the tombstone
  \<open>[a, c) @ 5\<close>, whose add erases the entry at \<open>b\<close>. A cursor on \<open>c\<close> stays on
  \<open>c\<close>, now the second entry, and a forward traversal for \<open>d @ 6\<close> answers true
  from there. A cursor on \<open>b\<close> dangles: a forward traversal is undefined, a binary
  search answers and leaves the cursor on an entry, and so does a query after
  \<open>InvalidatePosition\<close>.
\<close>

lemma cursor_stays_on_its_entry:
  "RangeDelMap_AddTombstone Compare_of_order \<lparr>start_key = ''a'', end_key = ''c'', seq = 5\<rparr>
     (Collapsed [(''a'', 5), (''b'', 0), (''c'', 7), (''e'', 0)] (Some 2))
   = Collapsed [(''a'', 5), (''c'', 7), (''e'', 0)] (Some 1)
   \<and> RangeDelMap_ShouldDelete Compare_of_order
       (Collapsed [(''a'', 5), (''c'', 7), (''e'', 0)] (Some 1))
       \<lparr>user_key = ''d'', sequence = 6, type = kTypeValue\<rparr> kForwardTraversal
     = Some (True, Collapsed [(''a'', 5), (''c'', 7), (''e'', 0)] (Some 1))"
  by (simp add: RangeDelMap_AddTombstone_def Collapsed_AddTombstone_def upper_bound_def
      prev_seq_def RangeDelMap_ShouldDelete_def Collapsed_ShouldDelete_def
      ShouldDelete_answer_def)

lemma cursor_on_an_erased_entry:
  "RangeDelMap_AddTombstone Compare_of_order \<lparr>start_key = ''a'', end_key = ''c'', seq = 5\<rparr>
     (Collapsed [(''a'', 5), (''b'', 0), (''c'', 7), (''e'', 0)] (Some 1))
   = Collapsed_dangling [(''a'', 5), (''c'', 7), (''e'', 0)]
   \<and> RangeDelMap_ShouldDelete Compare_of_order
       (Collapsed_dangling [(''a'', 5), (''c'', 7), (''e'', 0)])
       \<lparr>user_key = ''d'', sequence = 6, type = kTypeValue\<rparr> kForwardTraversal
     = None
   \<and> RangeDelMap_ShouldDelete Compare_of_order
       (Collapsed_dangling [(''a'', 5), (''c'', 7), (''e'', 0)])
       \<lparr>user_key = ''d'', sequence = 6, type = kTypeValue\<rparr> kBinarySearch
     = Some (True, Collapsed [(''a'', 5), (''c'', 7), (''e'', 0)] (Some 1))
   \<and> RangeDelMap_ShouldDelete Compare_of_order
       (RangeDelMap_InvalidatePosition
          (Collapsed_dangling [(''a'', 5), (''c'', 7), (''e'', 0)]))
       \<lparr>user_key = ''d'', sequence = 6, type = kTypeValue\<rparr> kForwardTraversal
     = Some (True, Collapsed [(''a'', 5), (''c'', 7), (''e'', 0)] (Some 1))"
  by (simp add: RangeDelMap_AddTombstone_def Collapsed_AddTombstone_def upper_bound_def
      prev_seq_def RangeDelMap_ShouldDelete_def Collapsed_ShouldDelete_def
      ShouldDelete_answer_def RangeDelMap_InvalidatePosition_def)

section \<open>Stripe routing\<close>

lemma word_pred_less_iff:
  fixes sq u :: "64 word"
  assumes "0 < sq"
  shows "(sq - 1 < u) = (sq \<le> u)"
proof -
  have "sq \<noteq> 0" using assms by auto
  then have "unat (sq - 1) = unat sq - 1" by (rule unat_minus_one)
  moreover have "0 < unat sq" using assms by (simp add: word_less_nat_alt)
  ultimately show ?thesis by (auto simp: word_less_nat_alt word_le_nat_alt)
qed

lemma set_map_emplace: "fst ` set (map_emplace k v xs) = insert k (fst ` set xs)"
proof (induction xs)
  case Nil
  show ?case by simp
next
  case (Cons e xs)
  obtain k' v' where e: "e = (k', v')" by (cases e)
  show ?case using Cons.IH by (auto simp: e)
qed

lemma sorted_map_emplace:
  "sorted_wrt (<) (map fst xs) \<Longrightarrow> sorted_wrt (<) (map fst (map_emplace k v xs))"
proof (induction xs)
  case Nil
  then show ?case by simp
next
  case (Cons e xs)
  obtain k' v' where e: "e = (k', v')" by (cases e)
  from Cons.prems have tl: "sorted_wrt (<) (map fst xs)" and hd: "\<forall>y \<in> fst ` set xs. k' < y"
    by (auto simp: e)
  show ?case
  proof (cases "k < k'")
    case True
    with Cons.prems show ?thesis by (auto simp: e)
  next
    case False
    show ?thesis
    proof (cases "k = k'")
      case True
      with Cons.prems show ?thesis by (simp add: e)
    next
      case ne: False
      with False have "k' < k" by simp
      moreover have "sorted_wrt (<) (map fst (map_emplace k v xs))" using Cons.IH tl by simp
      moreover have "fst ` set (map_emplace k v xs) = insert k (fst ` set xs)" by (rule set_map_emplace)
      ultimately show ?thesis using hd False ne by (auto simp: e)
    qed
  qed
qed

lemma foldl_emplace_keys:
  "fst ` set (foldl (\<lambda>m s. map_emplace s v m) acc ss) = fst ` set acc \<union> set ss"
  by (induction ss arbitrary: acc) (auto simp: set_map_emplace)

lemma foldl_emplace_sorted:
  "sorted_wrt (<) (map fst acc) \<Longrightarrow> sorted_wrt (<) (map fst (foldl (\<lambda>m s. map_emplace s v m) acc ss))"
  by (induction ss arbitrary: acc) (auto simp: sorted_map_emplace)

lemma InitRep_keys:
  "fst ` set (stripe_map (InitRep kMax c ss)) = insert kMax (set ss)"
  by (simp add: InitRep_def set_map_emplace foldl_emplace_keys)

lemma InitRep_sorted:
  "sorted_wrt (<) (map fst (stripe_map (InitRep kMax c ss)))"
  by (simp add: InitRep_def sorted_map_emplace foldl_emplace_sorted)

lemma upper_bound_le: "upper_bound k xs \<le> length xs"
  by (simp add: upper_bound_def length_takeWhile_le)

lemma upper_bound_before: "j < upper_bound k xs \<Longrightarrow> fst (xs ! j) \<le> k"
  unfolding upper_bound_def using nth_mem [of j "takeWhile (\<lambda>e. fst e \<le> k) xs"]
  by (metis (mono_tags, lifting) set_takeWhileD takeWhile_nth)

lemma upper_bound_at: "upper_bound k xs < length xs \<Longrightarrow> k < fst (xs ! upper_bound k xs)"
  unfolding upper_bound_def using nth_length_takeWhile [of "\<lambda>e. fst e \<le> k" xs] by auto

lemma upper_bound_exists:
  assumes "u \<in> fst ` set xs" "k < u"
  shows "upper_bound k xs < length xs"
proof (rule ccontr)
  assume "\<not> upper_bound k xs < length xs"
  then have "length (takeWhile (\<lambda>e. fst e \<le> k) xs) = length xs"
    using upper_bound_le [of k xs] by (simp add: upper_bound_def)
  then have "takeWhile (\<lambda>e. fst e \<le> k) xs = xs"
    by (metis takeWhile_eq_take take_all order_refl)
  then have "\<forall>e \<in> set xs. fst e \<le> k" by (metis set_takeWhileD)
  with assms show False by auto
qed

lemma upper_bound_Min:
  assumes sorted: "sorted_wrt (<) (map fst xs)"
    and lt: "upper_bound k xs < length xs"
  shows "fst (xs ! upper_bound k xs) = Min {u \<in> fst ` set xs. k < u}"
proof -
  let ?i = "upper_bound k xs"
  have fin: "finite {u \<in> fst ` set xs. k < u}" by simp
  have mem: "fst (xs ! ?i) \<in> {u \<in> fst ` set xs. k < u}"
    using lt upper_bound_at [OF lt] by auto
  have least: "fst (xs ! ?i) \<le> y" if "y \<in> {u \<in> fst ` set xs. k < u}" for y
  proof -
    from that obtain j where j: "j < length xs" "y = fst (xs ! j)" "k < y"
      by (auto simp: in_set_conv_nth)
    have "\<not> j < ?i" using upper_bound_before [of j k xs] j by auto
    then have "?i \<le> j" by simp
    then show ?thesis
    proof (cases "?i = j")
      case True then show ?thesis using j by simp
    next
      case False
      with \<open>?i \<le> j\<close> have "?i < j" by simp
      then have "map fst xs ! ?i < map fst xs ! j"
        using sorted j(1) sorted_wrt_nth_less [of "(<)" "map fst xs" ?i j] by simp
      moreover have "map fst xs ! ?i = fst (xs ! ?i)" using lt by (rule nth_map)
      moreover have "map fst xs ! j = fst (xs ! j)" using j(1) by (rule nth_map)
      ultimately show ?thesis using j by simp
    qed
  qed
  show ?thesis using Min_eqI [OF fin least mem] by simp
qed

lemma first_Min:
  assumes sorted: "sorted_wrt (<) (map fst xs)" and ne: "xs \<noteq> []"
  shows "fst (xs ! 0) = Min (fst ` set xs)"
proof -
  have "fst (xs ! 0) \<le> y" if "y \<in> fst ` set xs" for y
  proof -
    from that obtain j where j: "j < length xs" "y = fst (xs ! j)" by (auto simp: in_set_conv_nth)
    show ?thesis
    proof (cases j)
      case 0 then show ?thesis using j by simp
    next
      case (Suc n)
      then have "map fst xs ! 0 < map fst xs ! j"
        using sorted j(1) sorted_wrt_nth_less [of "(<)" "map fst xs" 0 j] by simp
      moreover have "map fst xs ! 0 = fst (xs ! 0)" using ne by (simp add: nth_map)
      moreover have "map fst xs ! j = fst (xs ! j)" using j(1) by (rule nth_map)
      ultimately show ?thesis using j by simp
    qed
  qed
  moreover have "fst (xs ! 0) \<in> fst ` set xs" using ne by (cases xs) auto
  ultimately show ?thesis using Min_eqI [of "fst ` set xs" "fst (xs ! 0)"] by simp
qed

lemma GetRangeDelMap_route:
  fixes sm :: "'k StripeMap"
  assumes sorted: "sorted_wrt (<) (map fst sm)"
    and ex: "u \<in> fst ` set sm" "sq \<le> u"
  shows "\<exists>i < length sm. GetRangeDelMap sq sm = Some i
           \<and> fst (sm ! i) = Min {u \<in> fst ` set sm. sq \<le> u}"
proof (cases "0 < sq")
  case True
  have eq: "{u \<in> fst ` set sm. sq - 1 < u} = {u \<in> fst ` set sm. sq \<le> u}"
    using word_pred_less_iff [OF True] by auto
  have lt: "upper_bound (sq - 1) sm < length sm"
    using upper_bound_exists [of u sm "sq - 1"] ex word_pred_less_iff [OF True] by simp
  show ?thesis
    using True lt upper_bound_Min [OF sorted lt] eq by (simp add: GetRangeDelMap_def)
next
  case False
  then have z: "sq = 0" by (simp add: word_gt_0)
  have ne: "sm \<noteq> []" using ex by auto
  have "{u \<in> fst ` set sm. sq \<le> u} = fst ` set sm" using z by auto
  then show ?thesis using first_Min [OF sorted ne] ne z by (simp add: GetRangeDelMap_def)
qed

lemma upper_bound_keys: "upper_bound k xs = length (takeWhile (\<lambda>u. u \<le> k) (map fst xs))"
  by (simp add: upper_bound_def takeWhile_map comp_def)

lemma GetRangeDelMap_keys:
  "map fst sm' = map fst sm \<Longrightarrow> GetRangeDelMap sq sm' = GetRangeDelMap sq sm"
  using map_eq_imp_length_eq [of fst sm' fst sm]
  by (simp add: GetRangeDelMap_def upper_bound_keys)

lemma Stripe_AddTombstone_keys:
  assumes "Stripe_AddTombstone ucmp t sm = Some sm'"
  shows "map fst sm' = map fst sm"
proof -
  from assms obtain i where i: "GetRangeDelMap (seq t) sm = Some i"
    and sm': "sm' = sm[i := (fst (sm ! i), RangeDelMap_AddTombstone ucmp t (snd (sm ! i)))]"
    by (auto simp: Stripe_AddTombstone_def split: option.splits)
  from i have "i < length sm" by (auto simp: GetRangeDelMap_def Let_def split: if_splits)
  then have "fst (sm ! i) = map fst sm ! i" by simp
  then have "(map fst sm)[i := fst (sm ! i)] = map fst sm" by (simp only: list_update_id)
  then show ?thesis by (simp add: sm' map_update)
qed

lemma Stripe_AddTombstone_other:
  assumes "Stripe_AddTombstone ucmp t sm = Some sm'" "GetRangeDelMap (seq t) sm \<noteq> Some i"
  shows "sm' ! i = sm ! i"
  using assms by (auto simp: Stripe_AddTombstone_def split: option.splits)

lemma ShouldDeleteImpl_same_stripe:
  assumes keys: "map fst sm' = map fst sm"
    and i: "GetRangeDelMap (sequence p) sm = Some i"
    and same: "sm' ! i = sm ! i"
  shows "map_option fst (ShouldDeleteImpl IsValueType IsEmpty ucmp sm' p mode)
       = map_option fst (ShouldDeleteImpl IsValueType IsEmpty ucmp sm p mode)"
proof -
  have i': "GetRangeDelMap (sequence p) sm' = Some i"
    using GetRangeDelMap_keys [OF keys] i by simp
  show ?thesis
    by (simp add: ShouldDeleteImpl_def i i' same option.map_comp comp_def split_def)
qed

text \<open>
  C3. In an aggregator initialized with the snapshots \<open>snapshots\<close> (its stripe map has
  the keys \<open>InitRep\<close> created, whatever tombstones were added since), and for a seqno
  \<open>sq\<close> up to \<open>kMaxSequenceNumber\<close>, \<open>GetRangeDelMap\<close> finds the stripe whose upper
  bound is the least element of the snapshots and \<open>kMaxSequenceNumber\<close> that is at
  least \<open>sq\<close>. A tombstone of seqno \<open>sq\<close> is added to the map of that stripe and to
  no other. A key of seqno \<open>sq\<close> is asked of the map of that stripe and of no other:
  \<open>ShouldDelete\<close> answers false when that map is empty and gives the answer of that
  map otherwise, moving the cursor of that map only. And adding a tombstone that is
  routed to another stripe does not change the answer for a key of seqno \<open>sq\<close>.
\<close>

theorem C3_stripe_routing:
  fixes sm :: "'k::linorder StripeMap"
  assumes init: "map fst sm = map fst (stripe_map (InitRep kMax collapse snapshots :: ('k, 'i) Rep))"
    and le: "sq \<le> kMax"
  shows "\<exists>i < length sm.
           GetRangeDelMap sq sm = Some i
         \<and> fst (sm ! i) = Min {u \<in> insert kMax (set snapshots). sq \<le> u}
         \<and> (\<forall>t. seq t = sq \<longrightarrow>
               Stripe_AddTombstone ucmp t sm
               = Some (sm[i := (fst (sm ! i), RangeDelMap_AddTombstone ucmp t (snd (sm ! i)))]))
         \<and> (\<forall>p mode. sequence p = sq \<longrightarrow>
               ShouldDeleteImpl IsValueType IsEmpty ucmp sm p mode
               = (if IsValueType (type p)
                  then if IsEmpty (snd (sm ! i)) then Some (False, sm)
                       else map_option (\<lambda>(b, m'). (b, sm[i := (fst (sm ! i), m')]))
                              (RangeDelMap_ShouldDelete ucmp (snd (sm ! i)) p mode)
                  else None))
         \<and> (\<forall>t sm' p mode.
               GetRangeDelMap (seq t) sm \<noteq> Some i \<and> Stripe_AddTombstone ucmp t sm = Some sm'
               \<and> sequence p = sq \<longrightarrow>
               map_option fst (ShouldDeleteImpl IsValueType IsEmpty ucmp sm' p mode)
               = map_option fst (ShouldDeleteImpl IsValueType IsEmpty ucmp sm p mode))"
proof -
  let ?sm0 = "stripe_map (InitRep kMax collapse snapshots :: ('k, 'i) Rep)"
  have "set (map fst sm) = set (map fst ?sm0)" using init by simp
  then have keys: "fst ` set sm = insert kMax (set snapshots)"
    using InitRep_keys [of kMax collapse snapshots] by simp
  have sorted: "sorted_wrt (<) (map fst sm)"
    using init InitRep_sorted [of kMax collapse snapshots] by simp
  have "kMax \<in> fst ` set sm" using keys by simp
  from GetRangeDelMap_route [OF sorted this le]
  obtain i where i: "i < length sm" "GetRangeDelMap sq sm = Some i"
    "fst (sm ! i) = Min {u \<in> fst ` set sm. sq \<le> u}"
    by blast
  have store: "Stripe_AddTombstone ucmp t sm
      = Some (sm[i := (fst (sm ! i), RangeDelMap_AddTombstone ucmp t (snd (sm ! i)))])"
    if "seq t = sq" for t
    using that i(2) by (simp add: Stripe_AddTombstone_def)
  have ask: "ShouldDeleteImpl IsValueType IsEmpty ucmp sm p mode
      = (if IsValueType (type p)
         then if IsEmpty (snd (sm ! i)) then Some (False, sm)
              else map_option (\<lambda>(b, m'). (b, sm[i := (fst (sm ! i), m')]))
                     (RangeDelMap_ShouldDelete ucmp (snd (sm ! i)) p mode)
         else None)"
    if "sequence p = sq" for p mode
    using that i(2) by (simp add: ShouldDeleteImpl_def)
  have query: "map_option fst (ShouldDeleteImpl IsValueType IsEmpty ucmp sm' p mode)
      = map_option fst (ShouldDeleteImpl IsValueType IsEmpty ucmp sm p mode)"
    if "GetRangeDelMap (seq t) sm \<noteq> Some i" "Stripe_AddTombstone ucmp t sm = Some sm'"
      "sequence p = sq" for t sm' p mode
    using ShouldDeleteImpl_same_stripe [of sm' sm p i IsValueType IsEmpty ucmp mode]
      Stripe_AddTombstone_keys [OF that(2)] Stripe_AddTombstone_other [OF that(2) that(1)]
      i(2) that(3)
    by simp
  show ?thesis
    using i store ask query unfolding keys by blast
qed

text \<open>
  An instance with the snapshots 5 and 15, at the seqno 7, whose stripe is the one of
  the snapshot 15, holding \<open>[a, c) @ 10\<close>. The tombstone \<open>[b, d) @ 7\<close> goes to that
  stripe; the key \<open>b @ 7\<close> is deleted by it, and still is after \<open>[a, c) @ 20\<close> has
  gone to the last stripe; the key \<open>b @ 12\<close>, of the same stripe, is not deleted,
  although the tombstone \<open>[a, c) @ 20\<close> of the last stripe covers \<open>b\<close>.
\<close>

theorem C3_stripe_routing_witness:
  "map fst example_stripes
     = map fst (stripe_map (InitRep example_kMax True [5, 15] :: (string, unit) Rep))
   \<and> (7 :: SequenceNumber) \<le> example_kMax
   \<and> GetRangeDelMap 7 example_stripes = Some 1
   \<and> fst (example_stripes ! 1) = 15
   \<and> Min {u \<in> insert example_kMax (set [5, 15]). (7 :: SequenceNumber) \<le> u} = 15
   \<and> Stripe_AddTombstone Compare_of_order
        \<lparr>start_key = ''b'', end_key = ''d'', seq = 7\<rparr> example_stripes
     = Some [(5, Collapsed [] None),
             (15, Collapsed [(''a'', 10), (''c'', 7), (''d'', 0)] None),
             (example_kMax, Collapsed [] None)]
   \<and> ShouldDeleteImpl (\<lambda>ty. ty = kTypeValue) (\<lambda>m. RangeDelMap_Size m = 0) Compare_of_order
        example_stripes \<lparr>user_key = ''b'', sequence = 7, type = kTypeValue\<rparr> kBinarySearch
     = Some (True, [(5, Collapsed [] None),
                    (15, Collapsed [(''a'', 10), (''c'', 0)] (Some 0)),
                    (example_kMax, Collapsed [] None)])
   \<and> Stripe_AddTombstone Compare_of_order
        \<lparr>start_key = ''a'', end_key = ''c'', seq = 20\<rparr> example_stripes
     = Some [(5, Collapsed [] None),
             (15, Collapsed [(''a'', 10), (''c'', 0)] None),
             (example_kMax, Collapsed [(''a'', 20), (''c'', 0)] None)]
   \<and> map_option fst
        (ShouldDeleteImpl (\<lambda>ty. ty = kTypeValue) (\<lambda>m. RangeDelMap_Size m = 0) Compare_of_order
           [(5, Collapsed [] None),
            (15, Collapsed [(''a'', 10), (''c'', 0)] None),
            (example_kMax, Collapsed [(''a'', 20), (''c'', 0)] None)]
           \<lparr>user_key = ''b'', sequence = 7, type = kTypeValue\<rparr> kBinarySearch)
     = Some True
   \<and> map_option fst
        (ShouldDeleteImpl (\<lambda>ty. ty = kTypeValue) (\<lambda>m. RangeDelMap_Size m = 0) Compare_of_order
           [(5, Collapsed [] None),
            (15, Collapsed [(''a'', 10), (''c'', 0)] None),
            (example_kMax, Collapsed [(''a'', 20), (''c'', 0)] None)]
           \<lparr>user_key = ''b'', sequence = 12, type = kTypeValue\<rparr> kBinarySearch)
     = Some False"
proof -
  let ?K = "example_kMax"
  let ?V = "\<lambda>ty. ty = kTypeValue"
  let ?E = "\<lambda>m :: string RangeDelMap. RangeDelMap_Size m = 0"
  let ?t = "\<lparr>start_key = ''a'', end_key = ''c'', seq = 20 :: SequenceNumber\<rparr>"
  let ?sm' = "[(5, Collapsed [] None),
          (15, Collapsed [(''a'', 10), (''c'', 0)] None),
          (?K, Collapsed [(''a'', 20), (''c'', 0)] None)] :: string StripeMap"
  let ?p = "\<lparr>user_key = ''b'', sequence = 7 :: SequenceNumber, type = kTypeValue\<rparr>"
  have h1: "map fst example_stripes
     = map fst (stripe_map (InitRep ?K True [5, 15] :: (string, unit) Rep))"
    by (simp add: example_stripes_def example_kMax_def InitRep_def NewRangeDelMap_def)
  have h2: "(7 :: SequenceNumber) \<le> ?K" by (simp add: example_kMax_def)
  have g: "GetRangeDelMap 7 example_stripes = Some 1"
    by (simp add: GetRangeDelMap_def upper_bound_def example_stripes_def example_kMax_def)
  have g': "GetRangeDelMap (seq ?t) example_stripes \<noteq> Some 1"
    by (simp add: GetRangeDelMap_def upper_bound_def example_stripes_def example_kMax_def)
  have f: "fst (example_stripes ! 1) = 15" by (simp add: example_stripes_def)
  have s: "snd (example_stripes ! 1) = Collapsed [(''a'', 10), (''c'', 0)] None"
    by (simp add: example_stripes_def)
  have b: "Stripe_AddTombstone Compare_of_order
        \<lparr>start_key = ''b'', end_key = ''d'', seq = 7\<rparr> example_stripes
     = Some [(5, Collapsed [] None),
             (15, Collapsed [(''a'', 10), (''c'', 7), (''d'', 0)] None),
             (?K, Collapsed [] None)]"
    by (simp add: Stripe_AddTombstone_def GetRangeDelMap_def upper_bound_def
        example_stripes_def example_kMax_def RangeDelMap_AddTombstone_def
        Collapsed_AddTombstone_def prev_seq_def)
  have a: "Stripe_AddTombstone Compare_of_order ?t example_stripes = Some ?sm'"
    by (simp add: Stripe_AddTombstone_def GetRangeDelMap_def upper_bound_def
        example_stripes_def example_kMax_def RangeDelMap_AddTombstone_def
        Collapsed_AddTombstone_def prev_seq_def)
  have r: "RangeDelMap_ShouldDelete Compare_of_order
        (Collapsed [(''a'', 10), (''c'', 0)] None) ?p kBinarySearch
      = Some (True, Collapsed [(''a'', 10), (''c'', 0)] (Some 0))"
    by (simp add: RangeDelMap_ShouldDelete_def Collapsed_ShouldDelete_def
        ShouldDelete_answer_def upper_bound_def)
  have e: "\<not> ?E (Collapsed [(''a'', 10), (''c'', 0)] None)"
    by (simp add: RangeDelMap_Size_def Collapsed_Size_def)
  have n: "map_option fst (ShouldDeleteImpl ?V ?E Compare_of_order ?sm'
        \<lparr>user_key = ''b'', sequence = 12, type = kTypeValue\<rparr> kBinarySearch) = Some False"
    by (simp add: ShouldDeleteImpl_def GetRangeDelMap_def upper_bound_def example_kMax_def
        RangeDelMap_Size_def Collapsed_Size_def RangeDelMap_ShouldDelete_def
        Collapsed_ShouldDelete_def ShouldDelete_answer_def)
  from C3_stripe_routing [OF h1 h2, where ucmp = Compare_of_order
      and IsValueType = ?V and IsEmpty = ?E]
  obtain i where i: "GetRangeDelMap 7 example_stripes = Some i"
    "fst (example_stripes ! i) = Min {u \<in> insert ?K (set [5, 15]). 7 \<le> u}"
    and ask: "\<And>p mode. sequence p = 7
       \<Longrightarrow> ShouldDeleteImpl ?V ?E Compare_of_order example_stripes p mode
         = (if ?V (type p)
            then if ?E (snd (example_stripes ! i)) then Some (False, example_stripes)
                 else map_option
                        (\<lambda>(b, m'). (b, example_stripes[i := (fst (example_stripes ! i), m')]))
                        (RangeDelMap_ShouldDelete Compare_of_order
                           (snd (example_stripes ! i)) p mode)
            else None)"
    and other: "\<And>t sm' p mode. GetRangeDelMap (seq t) example_stripes \<noteq> Some i
       \<Longrightarrow> Stripe_AddTombstone Compare_of_order t example_stripes = Some sm' \<Longrightarrow> sequence p = 7
       \<Longrightarrow> map_option fst (ShouldDeleteImpl ?V ?E Compare_of_order sm' p mode)
         = map_option fst (ShouldDeleteImpl ?V ?E Compare_of_order example_stripes p mode)"
    by blast
  from i(1) g have i1: "i = 1" by simp
  have m: "Min {u \<in> insert ?K (set [5, 15]). (7 :: SequenceNumber) \<le> u} = 15"
    using i(2) f unfolding i1 by simp
  have "ShouldDeleteImpl ?V ?E Compare_of_order example_stripes ?p kBinarySearch
      = Some (True, example_stripes[1 := (15, Collapsed [(''a'', 10), (''c'', 0)] (Some 0))])"
    using ask [of ?p kBinarySearch] e r unfolding i1 s f by simp
  then have q: "ShouldDeleteImpl ?V ?E Compare_of_order example_stripes ?p kBinarySearch
      = Some (True, [(5, Collapsed [] None),
                     (15, Collapsed [(''a'', 10), (''c'', 0)] (Some 0)),
                     (?K, Collapsed [] None)])"
    by (simp add: example_stripes_def)
  have o: "map_option fst (ShouldDeleteImpl ?V ?E Compare_of_order ?sm' ?p kBinarySearch)
      = Some True"
    using other [of ?t ?sm' ?p kBinarySearch] g' a q unfolding i1 by simp
  show ?thesis using h1 h2 g f m b q a o n by simp
qed

section \<open>Ingest that fails on an unparsable key\<close>







section \<open>AddTombstone on tombstones that are not empty\<close>

text \<open>
  The failures above need an empty tombstone, a tombstone whose seqno is already in the
  map, or a user comparator that is not the order of the map. This section proves what
  \<open>AddTombstone\<close> does otherwise, with \<open>Compare_of_order\<close> for the user comparator: on
  a tombstone with \<open>start < end\<close> and a seqno that is positive and not in the map, the
  new map assigns to every key the greater of the old seqno and the tombstone's inside
  its interval, and the old seqno outside; sentinels and idempotence need
  \<open>start < end\<close> only.
\<close>

lemma ascending_Nil [simp]: "ascending []" by (simp add: ascending_def)

lemma ascending_Cons:
  "ascending (e # xs) = ((\<forall>y \<in> set xs. fst e < fst y) \<and> ascending xs)"
  by (auto simp: ascending_def)

lemma ascending_append:
  "ascending (xs @ ys) = (ascending xs \<and> ascending ys \<and> (\<forall>x \<in> set xs. \<forall>y \<in> set ys. fst x < fst y))"
  by (auto simp: ascending_def sorted_wrt_append)

lemma ascending_take_drop:
  "ascending xs \<Longrightarrow> ascending (take n xs) \<and> ascending (drop n xs)"
  using ascending_append [of "take n xs" "drop n xs"] by simp

lemma take_upper_bound: "take (upper_bound k xs) xs = takeWhile (\<lambda>e. fst e \<le> k) xs"
  by (simp add: upper_bound_def takeWhile_eq_take [symmetric])

lemma drop_upper_bound: "drop (upper_bound k xs) xs = dropWhile (\<lambda>e. fst e \<le> k) xs"
  by (simp add: upper_bound_def dropWhile_eq_drop [symmetric])

lemma ascending_takeWhile_filter:
  "ascending xs \<Longrightarrow> takeWhile (\<lambda>e. fst e \<le> k) xs = filter (\<lambda>e. fst e \<le> k) xs"
proof (induction xs)
  case Nil then show ?case by simp
next
  case (Cons e xs)
  then have asc: "ascending xs" and lt: "\<forall>y \<in> set xs. fst e < fst y" by (auto simp: ascending_Cons)
  show ?case
  proof (cases "fst e \<le> k")
    case True
    then show ?thesis using Cons.IH asc by simp
  next
    case False
    then have "\<forall>y \<in> set xs. \<not> fst y \<le> k" using lt by auto
    then have "filter (\<lambda>e. fst e \<le> k) xs = []" by (simp add: filter_empty_conv)
    then show ?thesis using False by simp
  qed
qed

lemma ascending_dropWhile_gt:
  "ascending xs \<Longrightarrow> y \<in> set (dropWhile (\<lambda>e. fst e \<le> k) xs) \<Longrightarrow> k < fst y"
proof (induction xs)
  case Nil then show ?case by simp
next
  case (Cons e xs)
  then show ?case by (auto simp: ascending_Cons split: if_splits)
qed

lemma map_assign_front:
  assumes "\<forall>e \<in> set ys. k < fst e"
  shows "map_assign k v (xs @ ys) = map_assign k v xs @ ys"
  using assms
proof (induction xs)
  case Nil
  then show ?case by (cases ys) auto
next
  case (Cons e xs)
  obtain k' v' where "e = (k', v')" by (cases e)
  then show ?case using Cons by simp
qed

text \<open>
  The cut of \<open>Collapsed_AddTombstone\<close> at \<open>it\<close>: on a map with ascending keys, the
  assignment to the start key changes the entries in front of \<open>it\<close> only.
\<close>

lemma map_assign_upper_bound:
  assumes "ascending m"
  shows "map_assign k v m = map_assign k v (take (upper_bound k m) m) @ drop (upper_bound k m) m"
proof -
  have "\<forall>e \<in> set (drop (upper_bound k m) m). k < fst e"
    using ascending_dropWhile_gt [OF assms] by (simp add: drop_upper_bound)
  from map_assign_front [OF this, of v "take (upper_bound k m) m"] show ?thesis by simp
qed

lemma ascending_map_assign_last:
  assumes "ascending xs" "\<forall>e \<in> set xs. fst e \<le> k"
  shows "ascending (map_assign k v xs) \<and> (\<forall>e \<in> set (map_assign k v xs). fst e \<le> k)
         \<and> map_assign k v xs \<noteq> [] \<and> last (map_assign k v xs) = (k, v)"
  using assms
proof (induction xs)
  case Nil then show ?case by (simp add: ascending_def)
next
  case (Cons e xs)
  obtain k' v' where e: "e = (k', v')" by (cases e)
  from Cons.prems have asc: "ascending xs" and lt: "\<forall>y \<in> set xs. k' < fst y"
    and le: "k' \<le> k" "\<forall>e \<in> set xs. fst e \<le> k"
    by (auto simp: ascending_Cons e)
  show ?case
  proof (cases "k = k'")
    case True
    have "xs = []"
    proof (rule ccontr)
      assume "xs \<noteq> []"
      then obtain y where "y \<in> set xs" by (cases xs) auto
      with lt le True show False by force
    qed
    then show ?thesis using True by (simp add: e ascending_def)
  next
    case False
    with le have k'k: "k' < k" by simp
    from Cons.IH [OF asc le(2)] have IH: "ascending (map_assign k v xs)"
      "\<forall>e \<in> set (map_assign k v xs). fst e \<le> k" "map_assign k v xs \<noteq> []"
      "last (map_assign k v xs) = (k, v)" by auto
    have keys: "\<forall>y \<in> set (map_assign k v xs). k' < fst y"
    proof
      fix y assume "y \<in> set (map_assign k v xs)"
      then have "y = (k, v) \<or> y \<in> set xs"
        by (induction xs) (auto split: if_splits)
      then show "k' < fst y" using lt k'k by auto
    qed
    show ?thesis using False k'k IH keys by (auto simp: e ascending_Cons)
  qed
qed

lemma seq_at_seq_from: "seq_at m x = seq_from 0 m x"
  by (simp add: seq_at_def seq_from_def prev_seq_def)

lemma seq_from_Nil [simp]: "seq_from p [] x = p"
  by (simp add: seq_from_def)

lemma seq_from_Cons [simp]:
  "seq_from p ((k, s) # m) x = (if k \<le> x then seq_from s m x else p)"
  by (simp add: seq_from_def Let_def)

lemma seq_from_beyond: "\<forall>e \<in> set m. x < fst e \<Longrightarrow> seq_from p m x = p"
  by (cases m) (auto simp: seq_from_def)

lemma seq_from_append:
  "ascending (xs @ ys) \<Longrightarrow> seq_from p (xs @ ys) x = seq_from (seq_from p xs x) ys x"
proof (induction xs arbitrary: p)
  case Nil
  then show ?case by simp
next
  case (Cons e xs)
  obtain k s where e: "e = (k, s)" by (cases e)
  from Cons.prems have asc: "ascending (xs @ ys)" and lt: "\<forall>y \<in> set ys. k < fst y"
    by (auto simp: ascending_Cons e)
  show ?case
  proof (cases "k \<le> x")
    case True
    then show ?thesis using Cons.IH [OF asc] by (simp add: e)
  next
    case False
    then have "\<forall>y \<in> set ys. x < fst y" using lt by auto
    then show ?thesis using False by (simp add: e seq_from_beyond)
  qed
qed

lemma ascending_last_max:
  "ascending xs \<Longrightarrow> e \<in> set xs \<Longrightarrow> fst e \<le> fst (last xs)"
proof (induction xs)
  case Nil then show ?case by simp
next
  case (Cons y xs)
  then show ?case by (cases "xs = []") (auto simp: ascending_Cons intro: less_imp_le order.strict_trans2)
qed

lemma seq_from_all_le:
  assumes "m \<noteq> []" "\<forall>e \<in> set m. fst e \<le> x"
  shows "seq_from p m x = prev_seq m"
proof -
  have tw: "takeWhile (\<lambda>e. fst e \<le> x) m = m" using assms(2) by (simp add: takeWhile_eq_all_conv)
  show ?thesis unfolding seq_from_def prev_seq_def Let_def tw using assms(1) by simp
qed

lemma seq_at_append_last:
  assumes asc: "ascending (front @ z)" and ne: "front \<noteq> []"
  shows "seq_at (front @ z) x =
           (if x < fst (last front) then seq_at front x else seq_from (prev_seq front) z x)"
proof (cases "x < fst (last front)")
  case True
  have "\<forall>e \<in> set z. x < fst e"
  proof
    fix e assume "e \<in> set z"
    then have "fst (last front) < fst e" using asc ne by (auto simp: ascending_append)
    with True show "x < fst e" by simp
  qed
  then show ?thesis using True asc by (simp add: seq_at_seq_from seq_from_append seq_from_beyond)
next
  case False
  have "ascending front" using asc by (simp add: ascending_append)
  then have "\<forall>e \<in> set front. fst e \<le> x"
    using ascending_last_max [of front] False by (meson leI order.trans)
  then have "seq_from 0 front x = prev_seq front" using ne by (simp add: seq_from_all_le)
  then show ?thesis using False asc by (simp add: seq_at_seq_from seq_from_append)
qed

lemma map_emplace_front:
  "\<forall>e \<in> set xs. fst e < b \<Longrightarrow> map_emplace b v (xs @ ys) = xs @ map_emplace b v ys"
proof (induction xs)
  case Nil then show ?case by simp
next
  case (Cons e xs)
  obtain k s where "e = (k, s)" by (cases e)
  then show ?case using Cons by auto
qed

lemma ascending_single [simp]: "ascending [e]"
  by (simp add: ascending_def)

lemma prev_seq_snoc [simp]: "prev_seq (xs @ [(k, s)]) = s"
  by (simp add: prev_seq_def)

lemma loop_cover:
  assumes "AddTombstone_loop Compare_of_order t front es rest = (f2, es2, r2)"
    and "ascending (front @ rest)" "front \<noteq> []" "\<forall>e \<in> set front. fst e < end_key t"
    and "prev_seq front = max (seq t) p" "seq t \<noteq> p" "p < seq t \<Longrightarrow> es = p"
    and "\<forall>e \<in> set rest. snd e \<noteq> seq t"
  shows "seq_at (AddTombstone_end t f2 es2 r2) x =
           (if x < fst (last front) then seq_at front x
            else if x < end_key t then max (seq t) (seq_from p rest x)
            else seq_from p rest x)"
  using assms
proof (induction rest arbitrary: front es p)
  case Nil
  from Nil.prems(1) have res: "f2 = front" "es2 = es" "r2 = []" by simp_all
  show ?case
  proof (cases "seq t = prev_seq front")
    case True
    with Nil.prems(5,6) have "p < seq t" by (auto simp: max_def split: if_splits)
    with Nil.prems(7) have es: "es = p" by simp
    have m: "AddTombstone_end t f2 es2 r2 = front @ [(end_key t, p)]"
      using True map_emplace_front [of front "end_key t" p "[]"] Nil.prems(4)
      by (simp add: AddTombstone_end_def res es)
    have asc: "ascending (front @ [(end_key t, p)])"
      using Nil.prems(2,4) by (simp add: ascending_append)
    show ?thesis
      unfolding m seq_at_append_last [OF asc Nil.prems(3)]
      using True \<open>p < seq t\<close> by (auto simp: max_def)
  next
    case False
    with Nil.prems(5,6) have pq: "seq t < p" by (auto simp: max_def split: if_splits)
    have m: "AddTombstone_end t f2 es2 r2 = front @ []"
      using False by (simp add: AddTombstone_end_def res)
    have asc: "ascending (front @ [])" using Nil.prems(2) by simp
    show ?thesis
      unfolding m seq_at_append_last [OF asc Nil.prems(3)]
      using Nil.prems(5) pq by (auto simp: max_def)
  qed
next
  case (Cons e rest)
  obtain k s where e: "e = (k, s)" by (cases e)
  let ?q = "seq t" and ?b = "end_key t"
  from Cons.prems(2) have asc_f: "ascending front" and asc_r: "ascending rest"
    and f_lt_k: "\<forall>y \<in> set front. fst y < k" and k_lt_r: "\<forall>y \<in> set rest. k < fst y"
    and f_lt_r: "\<forall>x \<in> set front. \<forall>y \<in> set rest. fst x < fst y"
    by (auto simp: ascending_append ascending_Cons e)
  have last_lt_k: "fst (last front) < k" using f_lt_k Cons.prems(3) by simp
  have sq: "s \<noteq> ?q" using Cons.prems(8) by (simp add: e)
  have fresh: "\<forall>e \<in> set rest. snd e \<noteq> ?q" using Cons.prems(8) by simp
  show ?case
  proof (cases "k < ?b")
    case False
    then have res: "f2 = front" "es2 = es" "r2 = (k, s) # rest" using Cons.prems(1) by (simp_all add: e)
    show ?thesis
    proof (cases "?q = prev_seq front")
      case True
      with Cons.prems(5,6) have pq: "p < ?q" by (auto simp: max_def split: if_splits)
      with Cons.prems(7) have es: "es = p" by simp
      have m: "AddTombstone_end t f2 es2 r2 =
          front @ (if ?b < k then (?b, p) # (k, s) # rest else (k, s) # rest)"
        using True False map_emplace_front [of front ?b p "(k, s) # rest"] Cons.prems(4)
        by (auto simp: AddTombstone_end_def res es)
      have asc: "ascending (front @ (if ?b < k then (?b, p) # (k, s) # rest else (k, s) # rest))"
        using Cons.prems(2,4) False k_lt_r
        by (auto simp: ascending_append ascending_Cons e)
      show ?thesis
        unfolding m seq_at_append_last [OF asc Cons.prems(3)]
        using True pq False by (auto simp: max_def e)
    next
      case ne: False
      with Cons.prems(5,6) have pq: "?q < p" by (auto simp: max_def split: if_splits)
      have m: "AddTombstone_end t f2 es2 r2 = front @ (k, s) # rest"
        using ne by (simp add: AddTombstone_end_def res)
      have asc: "ascending (front @ (k, s) # rest)" using Cons.prems(2) by (simp add: e)
      show ?thesis
        unfolding m seq_at_append_last [OF asc Cons.prems(3)]
        using Cons.prems(5) pq False by (auto simp: max_def e)
    qed
  next
    case kb: True
    show ?thesis
    proof (cases "s < ?q")
      case sq_lt: True
      show ?thesis
      proof (cases "?q = prev_seq front")
        case True
        with Cons.prems(5,6) have pq: "p < ?q" by (auto simp: max_def split: if_splits)
        have loop: "AddTombstone_loop Compare_of_order t front s rest = (f2, es2, r2)"
          using Cons.prems(1) kb sq_lt True by (simp add: e)
        have asc: "ascending (front @ rest)" using asc_f asc_r f_lt_r by (simp add: ascending_append)
        have inv: "prev_seq front = max ?q s" using True sq_lt by (auto simp: max_def)
        have IH: "seq_at (AddTombstone_end t f2 es2 r2) x =
           (if x < fst (last front) then seq_at front x
            else if x < ?b then max ?q (seq_from s rest x)
            else seq_from s rest x)"
          using Cons.IH [OF loop asc Cons.prems(3) Cons.prems(4) inv _ _ fresh] sq by simp
        have below: "seq_from s rest x = s" if "x < k"
          using that k_lt_r by (intro seq_from_beyond) auto
        show ?thesis
          unfolding IH using below sq_lt pq kb last_lt_k by (auto simp: e max_def)
      next
        case ne: False
        with Cons.prems(5,6) have pq: "?q < p" by (auto simp: max_def split: if_splits)
        have pf: "prev_seq front = p" using Cons.prems(5) pq by (auto simp: max_def)
        let ?front' = "front @ [(k, ?q)]"
        have loop: "AddTombstone_loop Compare_of_order t ?front' s rest = (f2, es2, r2)"
          using Cons.prems(1) kb sq_lt ne by (simp add: e)
        have asc: "ascending (?front' @ rest)"
          using asc_f asc_r f_lt_r f_lt_k k_lt_r by (auto simp: ascending_append ascending_Cons)
        have ne': "?front' \<noteq> []" by simp
        have lt': "\<forall>e \<in> set ?front'. fst e < ?b" using Cons.prems(4) kb by auto
        have inv: "prev_seq ?front' = max ?q s" using sq_lt by (auto simp: max_def)
        have IH: "seq_at (AddTombstone_end t f2 es2 r2) x =
           (if x < k then seq_at ?front' x
            else if x < ?b then max ?q (seq_from s rest x)
            else seq_from s rest x)"
          using Cons.IH [OF loop asc ne' lt' inv _ _ fresh] sq by simp
        have asc1: "ascending (front @ [(k, ?q)])"
          using asc_f f_lt_k by (auto simp: ascending_append ascending_Cons)
        have front': "seq_at ?front' x = (if x < fst (last front) then seq_at front x else p)"
          if "x < k"
          unfolding seq_at_append_last [OF asc1 Cons.prems(3)] using that pf by auto
        show ?thesis
          unfolding IH using front' pq kb last_lt_k by (auto simp: e max_def)
      qed
    next
      case False
      with sq have qs: "?q < s" by simp
      let ?front' = "front @ [(k, s)]"
      have loop: "AddTombstone_loop Compare_of_order t ?front' es rest = (f2, es2, r2)"
        using Cons.prems(1) kb False by (simp add: e)
      have asc: "ascending (?front' @ rest)" using Cons.prems(2) by (simp add: e)
      have ne': "?front' \<noteq> []" by simp
      have lt': "\<forall>e \<in> set ?front'. fst e < ?b" using Cons.prems(4) kb by auto
      have inv: "prev_seq ?front' = max ?q s" using qs by (auto simp: max_def)
      have IH: "seq_at (AddTombstone_end t f2 es2 r2) x =
         (if x < k then seq_at ?front' x
          else if x < ?b then max ?q (seq_from s rest x)
          else seq_from s rest x)"
        using Cons.IH [OF loop asc ne' lt' inv _ _ fresh] qs by simp
      have asc1: "ascending (front @ [(k, s)])"
        using asc_f f_lt_k by (auto simp: ascending_append ascending_Cons)
      have front': "seq_at ?front' x = (if x < fst (last front) then seq_at front x else max ?q p)"
        if "x < k"
        unfolding seq_at_append_last [OF asc1 Cons.prems(3)] using that Cons.prems(5) by auto
      show ?thesis
        unfolding IH using front' kb last_lt_k by (auto simp: e max_def)
    qed
  qed
qed

lemma seq_from_map_assign_below:
  "x < a \<Longrightarrow> seq_from p (map_assign a q m) x = seq_from p m x"
proof (induction m arbitrary: p)
  case Nil
  then show ?case by auto
next
  case (Cons e m)
  obtain k s where "e = (k, s)" by (cases e)
  then show ?case using Cons by auto
qed

lemma set_map_assign: "set (map_assign k v m) \<subseteq> insert (k, v) (set m)"
proof (induction m)
  case Nil then show ?case by simp
next
  case (Cons e m)
  obtain k' v' where "e = (k', v')" by (cases e)
  then show ?case using Cons by auto
qed

lemma set_map_emplace_sub: "set (map_emplace k v m) \<subseteq> insert (k, v) (set m)"
proof (induction m)
  case Nil then show ?case by simp
next
  case (Cons e m)
  obtain k' v' where "e = (k', v')" by (cases e)
  then show ?case using Cons by auto
qed

lemma ascending_map_emplace: "ascending m \<Longrightarrow> ascending (map_emplace k v m)"
  unfolding ascending_def by (rule sorted_map_emplace)

text \<open>The loop keeps the keys ascending and brings in no seqno but the new one.\<close>


lemma loop_shape:
  assumes "AddTombstone_loop Compare_of_order t front es rest = (f2, es2, r2)"
    and "ascending (front @ rest)"
  shows "ascending (f2 @ r2)
       \<and> snd ` set (f2 @ r2) \<subseteq> insert (seq t) (snd ` set (front @ rest))
       \<and> es2 \<in> insert es (snd ` set rest)"
  using assms
proof (induction rest arbitrary: front es)
  case Nil
  then show ?case by auto
next
  case (Cons e rest)
  obtain k s where e: "e = (k, s)" by (cases e)
  from Cons.prems(2) have asc_drop: "ascending (front @ rest)"
    by (auto simp: ascending_append ascending_Cons e)
  have asc_raise: "ascending ((front @ [(k, v)]) @ rest)" for v
    using Cons.prems(2) by (auto simp: ascending_append ascending_Cons e)
  consider (stop) "\<not> k < end_key t"
    | (erase) "k < end_key t" "s < seq t" "seq t = prev_seq front"
    | (raise) "k < end_key t" "s < seq t" "seq t \<noteq> prev_seq front"
    | (keep) "k < end_key t" "\<not> s < seq t"
    by blast
  then show ?case
  proof cases
    case stop
    then show ?thesis using Cons.prems by (auto simp: e)
  next
    case erase
    then have "AddTombstone_loop Compare_of_order t front s rest = (f2, es2, r2)" using Cons.prems(1) by (simp add: e)
    from Cons.IH [OF this asc_drop] show ?thesis by (auto simp: e)
  next
    case raise
    then have "AddTombstone_loop Compare_of_order t (front @ [(k, seq t)]) s rest = (f2, es2, r2)"
      using Cons.prems(1) by (simp add: e)
    from Cons.IH [OF this asc_raise] show ?thesis by (auto simp: e)
  next
    case keep
    then have "AddTombstone_loop Compare_of_order t (front @ [(k, s)]) es rest = (f2, es2, r2)"
      using Cons.prems(1) by (simp add: e)
    from Cons.IH [OF this asc_raise] show ?thesis by (auto simp: e)
  qed
qed

lemma Collapsed_AddTombstone_unfold:
  "Collapsed_AddTombstone Compare_of_order t m =
     (let front = takeWhile (\<lambda>e. fst e \<le> start_key t) m;
          rest = dropWhile (\<lambda>e. fst e \<le> start_key t) m;
          front1 = (if prev_seq front < seq t then map_assign (start_key t) (seq t) front else front);
          es1 = (if prev_seq front < seq t then prev_seq front else 0)
      in case AddTombstone_loop Compare_of_order t front1 es1 rest of
           (f2, es2, r2) \<Rightarrow> AddTombstone_end t f2 es2 r2)"
  by (simp add: Collapsed_AddTombstone_def AddTombstone_end_def Let_def take_upper_bound
      drop_upper_bound split: prod.splits)

text \<open>The cut at the start key and the first step.\<close>


lemma start_step:
  fixes t :: "'k::linorder RangeTombstone"
  assumes asc: "ascending m"
  defines "front \<equiv> takeWhile (\<lambda>e. fst e \<le> start_key t) m"
    and "rest \<equiv> dropWhile (\<lambda>e. fst e \<le> start_key t) m"
  defines "front1 \<equiv> (if prev_seq front < seq t then map_assign (start_key t) (seq t) front else front)"
  shows "m = front @ rest"
    and "\<forall>e \<in> set front. fst e \<le> start_key t"
    and "\<forall>e \<in> set rest. start_key t < fst e"
    and "\<forall>e \<in> set front1. fst e \<le> start_key t"
    and "ascending (front1 @ rest)"
    and "snd ` set front1 \<subseteq> insert (seq t) (snd ` set front)"
proof -
  show m: "m = front @ rest" by (simp add: front_def rest_def)
  show f: "\<forall>e \<in> set front. fst e \<le> start_key t"
    unfolding front_def by (auto dest: set_takeWhileD)
  show r: "\<forall>e \<in> set rest. start_key t < fst e"
    unfolding rest_def using ascending_dropWhile_gt [OF asc] by auto
  have af: "ascending front" and ar: "ascending rest" using asc m by (auto simp: ascending_append)
  have f1: "ascending front1 \<and> (\<forall>e \<in> set front1. fst e \<le> start_key t)"
    unfolding front1_def using ascending_map_assign_last [OF af f] af f by auto
  then show "\<forall>e \<in> set front1. fst e \<le> start_key t" by simp
  show "ascending (front1 @ rest)"
    using f1 ar r by (fastforce simp: ascending_append)
  show "snd ` set front1 \<subseteq> insert (seq t) (snd ` set front)"
    unfolding front1_def using set_map_assign [of "start_key t" "seq t" front] by auto
qed

lemma Collapsed_AddTombstone_shape:
  assumes asc: "ascending m"
  shows "ascending (Collapsed_AddTombstone Compare_of_order t m)
       \<and> snd ` set (Collapsed_AddTombstone Compare_of_order t m) \<subseteq> insert (seq t) (insert 0 (snd ` set m))"
proof -
  define front where "front = takeWhile (\<lambda>e. fst e \<le> start_key t) m"
  define rest where "rest = dropWhile (\<lambda>e. fst e \<le> start_key t) m"
  define front1 where
    "front1 = (if prev_seq front < seq t then map_assign (start_key t) (seq t) front else front)"
  define es1 where "es1 = (if prev_seq front < seq t then prev_seq front else 0)"
  obtain f2 es2 r2 where loop: "AddTombstone_loop Compare_of_order t front1 es1 rest = (f2, es2, r2)"
    by (cases "AddTombstone_loop Compare_of_order t front1 es1 rest") auto
  have add: "Collapsed_AddTombstone Compare_of_order t m = AddTombstone_end t f2 es2 r2"
    unfolding Collapsed_AddTombstone_unfold Let_def front_def [symmetric] rest_def [symmetric]
      front1_def [symmetric] es1_def [symmetric] loop
    by simp
  note st = start_step [OF asc, of t, folded front_def rest_def, folded front1_def]
  have vals_m: "snd ` set front \<subseteq> snd ` set m" "snd ` set rest \<subseteq> snd ` set m"
    using st(1) by auto
  have ps: "prev_seq front \<in> insert 0 (snd ` set m)"
  proof (cases "front = []")
    case True
    then show ?thesis by (simp add: prev_seq_def)
  next
    case False
    then have "last front \<in> set front" by simp
    then have "snd (last front) \<in> snd ` set m" using vals_m(1) by blast
    then show ?thesis using False by (simp add: prev_seq_def)
  qed
  then have es1: "es1 \<in> insert 0 (snd ` set m)" by (simp add: es1_def)
  from loop_shape [OF loop st(5)]
  have sh: "ascending (f2 @ r2)"
    "snd ` set (f2 @ r2) \<subseteq> insert (seq t) (snd ` set (front1 @ rest))"
    "es2 \<in> insert es1 (snd ` set rest)" by auto
  have es2: "es2 \<in> insert 0 (snd ` set m)" using sh(3) es1 vals_m(2) by blast
  have "snd ` set (front1 @ rest) \<subseteq> insert (seq t) (snd ` set m)"
    using st(6) vals_m unfolding set_append image_Un by blast
  then have vals: "snd ` set (f2 @ r2) \<subseteq> insert (seq t) (insert 0 (snd ` set m))"
    using sh(2) by blast
  have "snd ` set (map_emplace (end_key t) es2 (f2 @ r2))
      \<subseteq> insert es2 (snd ` set (f2 @ r2))"
    using set_map_emplace_sub [of "end_key t" es2 "f2 @ r2"] by auto
  then have "snd ` set (map_emplace (end_key t) es2 (f2 @ r2))
      \<subseteq> insert (seq t) (insert 0 (snd ` set m))"
    using vals es2 by blast
  then have "snd ` set (AddTombstone_end t f2 es2 r2) \<subseteq> insert (seq t) (insert 0 (snd ` set m))"
    using vals unfolding AddTombstone_end_def by (cases "seq t = prev_seq f2") simp_all
  moreover have "ascending (AddTombstone_end t f2 es2 r2)"
    using sh(1) by (simp add: AddTombstone_end_def ascending_map_emplace)
  ultimately show ?thesis by (simp add: add)
qed

theorem Collapsed_AddTombstone_cover:
  fixes t :: "'k::linorder RangeTombstone"
  assumes asc: "ascending m"
    and ne: "start_key t < end_key t"
    and pos: "0 < seq t"
    and fresh: "\<forall>e \<in> set m. snd e \<noteq> seq t"
  shows "seq_at (Collapsed_AddTombstone Compare_of_order t m) x =
           (if start_key t \<le> x \<and> x < end_key t then max (seq t) (seq_at m x) else seq_at m x)"
proof -
  let ?a = "start_key t" and ?b = "end_key t" and ?q = "seq t"
  define front where "front = takeWhile (\<lambda>e. fst e \<le> ?a) m"
  define rest where "rest = dropWhile (\<lambda>e. fst e \<le> ?a) m"
  define front1 where
    "front1 = (if prev_seq front < ?q then map_assign ?a ?q front else front)"
  define es1 where "es1 = (if prev_seq front < ?q then prev_seq front else 0)"
  define p where "p = prev_seq front"
  obtain f2 es2 r2 where loop: "AddTombstone_loop Compare_of_order t front1 es1 rest = (f2, es2, r2)"
    by (cases "AddTombstone_loop Compare_of_order t front1 es1 rest") auto
  have add: "Collapsed_AddTombstone Compare_of_order t m = AddTombstone_end t f2 es2 r2"
    unfolding Collapsed_AddTombstone_unfold Let_def front_def [symmetric] rest_def [symmetric]
      front1_def [symmetric] es1_def [symmetric] loop
    by simp
  note st = start_step [OF asc, of t, folded front_def rest_def, folded front1_def]
  have af: "ascending front" using asc st(1) by (simp add: ascending_append)
  have pq: "p \<noteq> ?q"
  proof (cases "front = []")
    case True
    then show ?thesis using pos by (auto simp: p_def prev_seq_def)
  next
    case False
    then have "last front \<in> set m" using st(1) by (metis last_in_set Un_iff set_append)
    then show ?thesis using fresh False by (auto simp: p_def prev_seq_def)
  qed
  have fresh_rest: "\<forall>e \<in> set rest. snd e \<noteq> ?q" using fresh st(1) by (metis Un_iff set_append)
  have lt_b: "\<forall>e \<in> set front1. fst e < ?b" using st(4) ne by auto
  have rest_beyond: "seq_from v rest x = v" if "x < ?a" for v
    using that st(3) by (intro seq_from_beyond) auto
  have orig_ge: "seq_at m x = seq_from p rest x" if "\<forall>e \<in> set front. fst e \<le> x"
  proof (cases "front = []")
    case True
    then show ?thesis using st(1) by (simp add: seq_at_seq_from p_def prev_seq_def)
  next
    case False
    have "seq_from 0 front x = prev_seq front" using False that by (simp add: seq_from_all_le)
    then show ?thesis
      using asc unfolding st(1) by (simp add: seq_at_seq_from seq_from_append p_def)
  qed
  show ?thesis
  proof (cases "p < ?q")
    case True
    have f1: "front1 = map_assign ?a ?q front" and es: "es1 = p"
      using True by (simp_all add: front1_def es1_def p_def)
    from ascending_map_assign_last [OF af st(2), of ?q]
    have ne1: "front1 \<noteq> []" and last1: "last front1 = (?a, ?q)" by (simp_all add: f1)
    have inv: "prev_seq front1 = max ?q p" using ne1 last1 True by (auto simp: prev_seq_def max_def)
    have cov: "seq_at (AddTombstone_end t f2 es2 r2) x =
           (if x < ?a then seq_at front1 x
            else if x < ?b then max ?q (seq_from p rest x)
            else seq_from p rest x)"
      using loop_cover [OF loop st(5) ne1 lt_b inv pq [symmetric] _ fresh_rest, of x] es last1
      by simp
    have below: "seq_at front1 x = seq_at m x" if "x < ?a"
    proof -
      have "seq_at front1 x = seq_from 0 front x"
        using that by (simp add: f1 seq_at_seq_from seq_from_map_assign_below)
      also have "\<dots> = seq_at m x"
        using asc rest_beyond [OF that] unfolding st(1)
        by (simp add: seq_at_seq_from seq_from_append)
      finally show ?thesis .
    qed
    have above: "seq_from p rest x = seq_at m x" if "?a \<le> x"
      using orig_ge that st(2) by (metis order.trans)
    show ?thesis unfolding add cov using below above by auto
  next
    case False
    with pq have qp: "?q < p" by auto
    have f1: "front1 = front" and es: "es1 = 0"
      using False by (simp_all add: front1_def es1_def p_def)
    have ne1: "front \<noteq> []"
    proof
      assume "front = []"
      then have "p = 0" by (simp add: p_def prev_seq_def)
      with qp show False by simp
    qed
    have inv: "prev_seq front = max ?q p" using qp by (auto simp: p_def max_def)
    have cov: "seq_at (AddTombstone_end t f2 es2 r2) x =
           (if x < fst (last front) then seq_at front x
            else if x < ?b then max ?q (seq_from p rest x)
            else seq_from p rest x)"
      using loop_cover [OF loop [unfolded f1] st(5) [unfolded f1] ne1 lt_b [unfolded f1] inv
          pq [symmetric] _ fresh_rest, of x] qp
      by auto
    have orig: "seq_at m x = (if x < fst (last front) then seq_at front x else seq_from p rest x)"
      using seq_at_append_last [OF asc [unfolded st(1)] ne1] st(1) by (simp add: p_def)
    have la: "fst (last front) \<le> ?a" using st(2) ne1 by simp
    have mid: "seq_from p rest x = p" if "x < ?a" using rest_beyond [OF that] .
    show ?thesis unfolding add cov orig using la mid qp by (auto simp: max_def)
  qed
qed

lemma cover_seq_Nil [simp]: "cover_seq [] x = 0"
  by (simp add: cover_seq_def)

lemma cover_seq_snoc [simp]:
  "cover_seq (ts @ [t]) x =
     (if start_key t \<le> x \<and> x < end_key t then max (seq t) (cover_seq ts x) else cover_seq ts x)"
  by (simp add: cover_seq_def)

lemma less_cover_seq:
  "(s < cover_seq ts x) = (\<exists>t \<in> set ts. start_key t \<le> x \<and> x < end_key t \<and> s < seq t)"
proof (induction ts rule: rev_induct)
  case Nil
  show ?case by simp
next
  case (snoc t ts)
  then show ?case by (auto simp: less_max_iff_disj)
qed

lemma Collapsed_adds_cover:
  fixes ts :: "'k::linorder RangeTombstone list"
  assumes "distinct (map seq ts)"
    and "\<forall>t \<in> set ts. start_key t < end_key t \<and> 0 < seq t"
  shows "ascending (foldl (\<lambda>m t. Collapsed_AddTombstone Compare_of_order t m) [] ts)
       \<and> snd ` set (foldl (\<lambda>m t. Collapsed_AddTombstone Compare_of_order t m) [] ts) \<subseteq> insert 0 (seq ` set ts)
       \<and> (\<forall>x. seq_at (foldl (\<lambda>m t. Collapsed_AddTombstone Compare_of_order t m) [] ts) x = cover_seq ts x)"
  using assms
proof (induction ts rule: rev_induct)
  case Nil
  show ?case by (simp add: seq_at_def prev_seq_def)
next
  case (snoc t ts)
  let ?m = "foldl (\<lambda>m t. Collapsed_AddTombstone Compare_of_order t m) [] ts"
  from snoc.prems have d: "distinct (map seq ts)" and new: "seq t \<notin> seq ` set ts"
    and ok: "\<forall>t \<in> set ts. start_key t < end_key t \<and> 0 < seq t"
    and t: "start_key t < end_key t" "0 < seq t"
    by auto
  from snoc.IH [OF d ok] have asc: "ascending ?m"
    and vals: "snd ` set ?m \<subseteq> insert 0 (seq ` set ts)"
    and cov: "\<And>x. seq_at ?m x = cover_seq ts x"
    by auto
  have fresh: "\<forall>e \<in> set ?m. snd e \<noteq> seq t"
  proof
    fix e assume "e \<in> set ?m"
    then have "snd e \<in> insert 0 (seq ` set ts)" using vals by blast
    then have "snd e = 0 \<or> snd e \<in> seq ` set ts" by simp
    then show "snd e \<noteq> seq t"
    proof
      assume "snd e = 0"
      then show ?thesis using t(2) by auto
    next
      assume "snd e \<in> seq ` set ts"
      then show ?thesis using new by metis
    qed
  qed
  from Collapsed_AddTombstone_shape [OF asc, of t]
  have asc': "ascending (Collapsed_AddTombstone Compare_of_order t ?m)"
    and vals': "snd ` set (Collapsed_AddTombstone Compare_of_order t ?m) \<subseteq> insert (seq t) (insert 0 (snd ` set ?m))"
    by auto
  have v: "snd ` set (Collapsed_AddTombstone Compare_of_order t ?m) \<subseteq> insert 0 (seq ` set (ts @ [t]))"
    using vals' vals by auto
  have c: "seq_at (Collapsed_AddTombstone Compare_of_order t ?m) x = cover_seq (ts @ [t]) x" for x
    using Collapsed_AddTombstone_cover [OF asc t fresh, of x] cov by simp
  show ?case using asc' v c by simp
qed

lemma Collapsed_ShouldDelete_seq_at:
  "map_option fst (Collapsed_ShouldDelete Compare_of_order m iter parsed kBinarySearch)
     = Some (sequence parsed < seq_at m (user_key parsed))"
proof -
  let ?x = "user_key parsed"
  let ?u = "upper_bound ?x m"
  show ?thesis
  proof (cases "?u = 0")
    case True
    then have "takeWhile (\<lambda>e. fst e \<le> ?x) m = []" by (simp add: upper_bound_def)
    then have "seq_at m ?x = 0" by (simp add: seq_at_def prev_seq_def)
    then show ?thesis using True by (simp add: Collapsed_ShouldDelete_def)
  next
    case False
    then have pos: "0 < ?u" by simp
    have le: "?u \<le> length m" by (rule upper_bound_le)
    have a1: "fst (m ! (?u - 1)) \<le> ?x" using upper_bound_before [of "?u - 1" ?x m] pos by simp
    have a2: "Suc (?u - 1) = length m \<or> ?x < fst (m ! Suc (?u - 1))"
      using upper_bound_at [of ?x m] le pos by (cases "?u = length m") auto
    have tw: "takeWhile (\<lambda>e. fst e \<le> ?x) m = take ?u m" by (simp add: take_upper_bound)
    have ne: "take ?u m \<noteq> []" using pos le by auto
    have "last (take ?u m) = take ?u m ! (length (take ?u m) - 1)" using ne by (rule last_conv_nth)
    also have "\<dots> = m ! (?u - 1)" using pos le by simp
    finally have "seq_at m ?x = snd (m ! (?u - 1))"
      using ne by (simp add: seq_at_def prev_seq_def tw)
    then show ?thesis
      using False a1 a2 by (simp add: Collapsed_ShouldDelete_def ShouldDelete_answer_def Let_def)
  qed
qed

lemma set_multiset_emplace: "set (multiset_emplace Compare_of_order t us) = insert t (set us)"
  by (induction us) auto

lemma start_sorted_multiset_emplace:
  "start_sorted us \<Longrightarrow> start_sorted (multiset_emplace Compare_of_order t us)"
proof (induction us)
  case Nil
  then show ?case by (simp add: start_sorted_def)
next
  case (Cons u us)
  then show ?case
    by (auto simp: start_sorted_def set_multiset_emplace)
qed

lemma Uncollapsed_adds:
  "set (foldl (\<lambda>m t. Uncollapsed_AddTombstone Compare_of_order t m) [] ts) = set ts
   \<and> start_sorted (foldl (\<lambda>m t. Uncollapsed_AddTombstone Compare_of_order t m) [] ts)"
proof (induction ts rule: rev_induct)
  case Nil
  show ?case by (simp add: start_sorted_def)
next
  case (snoc t ts)
  then show ?case
    by (simp add: Uncollapsed_AddTombstone_def set_multiset_emplace start_sorted_multiset_emplace)
qed

lemma Uncollapsed_scan_iff:
  "start_sorted us \<Longrightarrow>
   Uncollapsed_scan Compare_of_order parsed us =
     (\<exists>t \<in> set us. start_key t \<le> user_key parsed \<and> user_key parsed < end_key t
        \<and> sequence parsed < seq t)"
proof (induction us)
  case Nil
  show ?case by simp
next
  case (Cons u us)
  then have IH: "Uncollapsed_scan Compare_of_order parsed us =
     (\<exists>t \<in> set us. start_key t \<le> user_key parsed \<and> user_key parsed < end_key t
        \<and> sequence parsed < seq t)"
    and ge: "\<forall>t \<in> set us. start_key u \<le> start_key t"
    by (auto simp: start_sorted_def)
  show ?case
  proof (cases "user_key parsed < start_key u")
    case True
    then have "\<forall>t \<in> set (u # us). \<not> start_key t \<le> user_key parsed" using ge by auto
    then show ?thesis using True by auto
  next
    case False
    then show ?thesis using IH by auto
  qed
qed

theorem Collapsed_equals_Uncollapsed_distinct_seqnos:
  fixes ts :: "'k::linorder RangeTombstone list"
  assumes "distinct (map seq ts)"
    and "\<forall>t \<in> set ts. start_key t < end_key t \<and> 0 < seq t"
  shows "map_option fst
           (Collapsed_ShouldDelete Compare_of_order (foldl (\<lambda>m t. Collapsed_AddTombstone Compare_of_order t m) [] ts) iter parsed
              kBinarySearch)
       = Uncollapsed_ShouldDelete Compare_of_order (foldl (\<lambda>m t. Uncollapsed_AddTombstone Compare_of_order t m) [] ts) parsed
           kFullScan"
proof -
  have "seq_at (foldl (\<lambda>m t. Collapsed_AddTombstone Compare_of_order t m) [] ts) (user_key parsed)
      = cover_seq ts (user_key parsed)"
    using Collapsed_adds_cover [OF assms] by simp
  then show ?thesis
    using Uncollapsed_adds [of ts] Uncollapsed_scan_iff [of _ parsed]
    by (simp add: Collapsed_ShouldDelete_seq_at Uncollapsed_ShouldDelete_def less_cover_seq)
qed

theorem Collapsed_order_invariant_distinct_seqnos:
  fixes ts ts' :: "'k::linorder RangeTombstone list"
  assumes "mset ts' = mset ts"
    and "distinct (map seq ts)"
    and "\<forall>t \<in> set ts. start_key t < end_key t \<and> 0 < seq t"
  shows "map_option fst
           (Collapsed_ShouldDelete Compare_of_order (foldl (\<lambda>m t. Collapsed_AddTombstone Compare_of_order t m) [] ts') iter parsed
              kBinarySearch)
       = map_option fst
           (Collapsed_ShouldDelete Compare_of_order (foldl (\<lambda>m t. Collapsed_AddTombstone Compare_of_order t m) [] ts) iter' parsed
              kBinarySearch)"
proof -
  have s: "set ts' = set ts" using assms(1) by (rule mset_eq_setD)
  have "mset (map seq ts') = mset (map seq ts)" using assms(1) by simp
  then have d: "distinct (map seq ts')" using assms(2) by (metis mset_eq_imp_distinct_iff)
  have ok: "\<forall>t \<in> set ts'. start_key t < end_key t \<and> 0 < seq t" using assms(3) s by simp
  have "seq_at (foldl (\<lambda>m t. Collapsed_AddTombstone Compare_of_order t m) [] ts') (user_key parsed)
      = cover_seq ts' (user_key parsed)"
    "seq_at (foldl (\<lambda>m t. Collapsed_AddTombstone Compare_of_order t m) [] ts) (user_key parsed)
      = cover_seq ts (user_key parsed)"
    using Collapsed_adds_cover [OF d ok] Collapsed_adds_cover [OF assms(2,3)] by simp_all
  then show ?thesis
    by (simp add: Collapsed_ShouldDelete_seq_at less_cover_seq s)
qed

lemma loop_tail:
  assumes "AddTombstone_loop Compare_of_order t front es rest = (f2, es2, r2)"
    and "\<forall>e \<in> set front. fst e < end_key t"
  shows "(\<forall>e \<in> set f2. fst e < end_key t) \<and> (\<exists>c. rest = c @ r2)
       \<and> (r2 = [] \<or> end_key t \<le> fst (hd r2))"
  using assms
proof (induction rest arbitrary: front es)
  case Nil
  then show ?case by auto
next
  case (Cons e rest)
  obtain k s where e: "e = (k, s)" by (cases e)
  consider (stop) "\<not> k < end_key t"
    | (erase) "k < end_key t" "s < seq t" "seq t = prev_seq front"
    | (raise) "k < end_key t" "s < seq t" "seq t \<noteq> prev_seq front"
    | (keep) "k < end_key t" "\<not> s < seq t"
    by blast
  then show ?case
  proof cases
    case stop
    then show ?thesis using Cons.prems by (auto simp: e)
  next
    case erase
    then have "AddTombstone_loop Compare_of_order t front s rest = (f2, es2, r2)" using Cons.prems(1) by (simp add: e)
    from Cons.IH [OF this Cons.prems(2)] show ?thesis by (auto simp: e intro: exI [of _ "(k, s) # _"])
  next
    case raise
    then have l: "AddTombstone_loop Compare_of_order t (front @ [(k, seq t)]) s rest = (f2, es2, r2)"
      using Cons.prems(1) by (simp add: e)
    have "\<forall>e \<in> set (front @ [(k, seq t)]). fst e < end_key t" using Cons.prems(2) raise(1) by auto
    from Cons.IH [OF l this] show ?thesis by (auto simp: e intro: exI [of _ "(k, s) # _"])
  next
    case keep
    then have l: "AddTombstone_loop Compare_of_order t (front @ [(k, s)]) es rest = (f2, es2, r2)"
      using Cons.prems(1) by (simp add: e)
    have "\<forall>e \<in> set (front @ [(k, s)]). fst e < end_key t" using Cons.prems(2) keep(1) by auto
    from Cons.IH [OF l this] show ?thesis by (auto simp: e intro: exI [of _ "(k, s) # _"])
  qed
qed

lemma loop_exhaust:
  assumes "AddTombstone_loop Compare_of_order t front es rest = (f2, es2, [])"
    and "rest \<noteq> []" "snd (last rest) = 0" "0 < seq t"
  shows "prev_seq f2 = seq t \<and> es2 = 0"
  using assms
proof (induction rest arbitrary: front es)
  case Nil
  then show ?case by simp
next
  case (Cons e rest)
  obtain k s where e: "e = (k, s)" by (cases e)
  have kb: "k < end_key t"
  proof (rule ccontr)
    assume "\<not> k < end_key t"
    then show False using Cons.prems(1) by (simp add: e)
  qed
  show ?case
  proof (cases "rest = []")
    case True
    then have s0: "s = 0" using Cons.prems(3) by (simp add: e)
    then have "s < seq t" using Cons.prems(4) by simp
    then show ?thesis using Cons.prems(1) kb True s0 by (auto simp: e split: if_splits)
  next
    case False
    then have last: "snd (last rest) = 0" using Cons.prems(3) by simp
    obtain front' es' where "AddTombstone_loop Compare_of_order t front' es' rest = (f2, es2, [])"
      using Cons.prems(1) kb by (auto simp: e split: if_splits)
    from Cons.IH [OF this False last Cons.prems(4)] show ?thesis .
  qed
qed

lemma map_emplace_head:
  assumes "r = [] \<or> b \<le> fst (hd r)"
  shows "\<exists>w ys. map_emplace b v r = (b, w) # ys \<and> (ys = [] \<and> r = [] \<or> last ys = last r \<and> r \<noteq> [] \<and> ys \<noteq> [] \<or> (b, w) = last r \<and> ys = [] \<and> r = [last r])"
proof (cases r)
  case Nil
  then show ?thesis by simp
next
  case (Cons e r')
  obtain k s where e: "e = (k, s)" by (cases e)
  show ?thesis
  proof (cases "b < k")
    case True
    then show ?thesis by (simp add: Cons e)
  next
    case False
    then have "b = k" using assms by (simp add: Cons e)
    then show ?thesis by (cases "r' = []") (auto simp: Cons e)
  qed
qed

lemma last_map_emplace_head:
  assumes "r \<noteq> []" "b \<le> fst (hd r)"
  shows "map_emplace b v r \<noteq> [] \<and> last (map_emplace b v r) = last r"
  using map_emplace_head [of r b v] assms by auto

theorem Collapsed_AddTombstone_sentinel:
  fixes t :: "'k::linorder RangeTombstone"
  assumes asc: "ascending m" and sen: "sentinel_closed m"
    and ne: "start_key t < end_key t" and pos: "0 < seq t"
  shows "ascending (Collapsed_AddTombstone Compare_of_order t m) \<and> sentinel_closed (Collapsed_AddTombstone Compare_of_order t m)
       \<and> Collapsed_AddTombstone Compare_of_order t m \<noteq> []"
proof -
  let ?a = "start_key t" and ?b = "end_key t" and ?q = "seq t"
  define front where "front = takeWhile (\<lambda>e. fst e \<le> ?a) m"
  define rest where "rest = dropWhile (\<lambda>e. fst e \<le> ?a) m"
  define front1 where
    "front1 = (if prev_seq front < ?q then map_assign ?a ?q front else front)"
  define es1 where "es1 = (if prev_seq front < ?q then prev_seq front else 0)"
  obtain f2 es2 r2 where loop: "AddTombstone_loop Compare_of_order t front1 es1 rest = (f2, es2, r2)"
    by (cases "AddTombstone_loop Compare_of_order t front1 es1 rest") auto
  have add: "Collapsed_AddTombstone Compare_of_order t m = AddTombstone_end t f2 es2 r2"
    unfolding Collapsed_AddTombstone_unfold Let_def front_def [symmetric] rest_def [symmetric]
      front1_def [symmetric] es1_def [symmetric] loop
    by simp
  note st = start_step [OF asc, of t, folded front_def rest_def, folded front1_def]
  have af: "ascending front" using asc st(1) by (simp add: ascending_append)
  have lt_b: "\<forall>e \<in> set front1. fst e < ?b" using st(4) ne by auto
  from loop_tail [OF loop lt_b] obtain c where tail: "\<forall>e \<in> set f2. fst e < ?b"
    "rest = c @ r2" "r2 = [] \<or> ?b \<le> fst (hd r2)" by blast
  have end_eq: "AddTombstone_end t f2 es2 r2 =
      f2 @ (if ?q = prev_seq f2 then map_emplace ?b es2 r2 else r2)"
    using map_emplace_front [OF tail(1), of es2 r2] by (simp add: AddTombstone_end_def)
  have closed: "sentinel_closed (AddTombstone_end t f2 es2 r2) \<and> AddTombstone_end t f2 es2 r2 \<noteq> []"
  proof (cases "r2 = []")
    case False
    then have "m \<noteq> []" "last m = last r2" using st(1) tail(2) by simp_all
    then have l0: "snd (last r2) = 0" using sen by (simp add: sentinel_closed_def)
    have "?b \<le> fst (hd r2)" using tail(3) False by simp
    from last_map_emplace_head [OF False this, of es2]
    show ?thesis unfolding end_eq using False l0 by (simp add: sentinel_closed_def)
  next
    case True
    have "prev_seq f2 = ?q \<and> es2 = 0"
    proof (cases "rest = []")
      case False
      then have "m \<noteq> []" "last m = last rest" using st(1) by simp_all
      then have "snd (last rest) = 0" using sen by (simp add: sentinel_closed_def)
      from loop_exhaust [OF loop [unfolded True] False this pos] show ?thesis .
    next
      case rnil: True
      then have "m = front" using st(1) by simp
      then have p0: "prev_seq front = 0" using sen by (auto simp: sentinel_closed_def prev_seq_def)
      then have f1: "front1 = map_assign ?a ?q front" "es1 = 0"
        using pos by (simp_all add: front1_def es1_def)
      from ascending_map_assign_last [OF af st(2), of ?q]
      have "prev_seq front1 = ?q" by (simp add: f1 prev_seq_def)
      moreover have "f2 = front1" "es2 = es1" using loop rnil by simp_all
      ultimately show ?thesis using f1 by simp
    qed
    then show ?thesis unfolding end_eq using True by (simp add: sentinel_closed_def)
  qed
  show ?thesis using closed Collapsed_AddTombstone_shape [OF asc, of t] by (simp add: add)
qed

lemma loop_produced:
  assumes "AddTombstone_loop Compare_of_order t front es rest = (f2, es2, r2)"
    and "\<forall>e \<in> set rest. a < fst e"
  shows "\<exists>P. f2 = front @ P
           \<and> (\<forall>e \<in> set P. a < fst e \<and> fst e < end_key t \<and> \<not> snd e < seq t)"
  using assms
proof (induction rest arbitrary: front es)
  case Nil
  then show ?case by auto
next
  case (Cons e rest)
  obtain k s where e: "e = (k, s)" by (cases e)
  have gt: "\<forall>e \<in> set rest. a < fst e" and ak: "a < k" using Cons.prems(2) by (simp_all add: e)
  consider (stop) "\<not> k < end_key t"
    | (erase) "k < end_key t" "s < seq t" "seq t = prev_seq front"
    | (raise) "k < end_key t" "s < seq t" "seq t \<noteq> prev_seq front"
    | (keep) "k < end_key t" "\<not> s < seq t"
    by blast
  then show ?case
  proof cases
    case stop
    then show ?thesis using Cons.prems(1) by (auto simp: e)
  next
    case erase
    then have "AddTombstone_loop Compare_of_order t front s rest = (f2, es2, r2)" using Cons.prems(1) by (simp add: e)
    from Cons.IH [OF this gt] show ?thesis .
  next
    case raise
    then have "AddTombstone_loop Compare_of_order t (front @ [(k, seq t)]) s rest = (f2, es2, r2)"
      using Cons.prems(1) by (simp add: e)
    from Cons.IH [OF this gt] obtain P where
      "f2 = (front @ [(k, seq t)]) @ P"
      "\<forall>e \<in> set P. a < fst e \<and> fst e < end_key t \<and> \<not> snd e < seq t" by blast
    then have "f2 = front @ ((k, seq t) # P)
        \<and> (\<forall>e \<in> set ((k, seq t) # P). a < fst e \<and> fst e < end_key t \<and> \<not> snd e < seq t)"
      using ak raise(1) by simp
    then show ?thesis by blast
  next
    case keep
    then have "AddTombstone_loop Compare_of_order t (front @ [(k, s)]) es rest = (f2, es2, r2)"
      using Cons.prems(1) by (simp add: e)
    from Cons.IH [OF this gt] obtain P where
      "f2 = (front @ [(k, s)]) @ P"
      "\<forall>e \<in> set P. a < fst e \<and> fst e < end_key t \<and> \<not> snd e < seq t" by blast
    then have "f2 = front @ ((k, s) # P)
        \<and> (\<forall>e \<in> set ((k, s) # P). a < fst e \<and> fst e < end_key t \<and> \<not> snd e < seq t)"
      using ak keep by simp
    then show ?thesis by blast
  qed
qed

lemma loop_keep:
  assumes "\<forall>e \<in> set P. fst e < end_key t \<and> \<not> snd e < seq t"
    and "Y = [] \<or> \<not> fst (hd Y) < end_key t"
  shows "AddTombstone_loop Compare_of_order t front es (P @ Y) = (front @ P, es, Y)"
  using assms(1)
proof (induction P arbitrary: front)
  case Nil
  show ?case
  proof (cases Y)
    case Nil then show ?thesis by simp
  next
    case (Cons y Y')
    obtain k s where "y = (k, s)" by (cases y)
    then show ?thesis using assms(2) Cons by simp
  qed
next
  case (Cons e P)
  obtain k s where e: "e = (k, s)" by (cases e)
  from Cons.prems have "k < end_key t" "\<not> s < seq t"
    and rest: "\<forall>e \<in> set P. fst e < end_key t \<and> \<not> snd e < seq t" by (simp_all add: e)
  then show ?case using Cons.IH [OF rest, of "front @ [(k, s)]"] by (simp add: e)
qed

lemma takeWhile_dropWhile_split:
  assumes "\<forall>e \<in> set xs. P e" "ys = [] \<or> \<not> P (hd ys)"
  shows "takeWhile P (xs @ ys) = xs \<and> dropWhile P (xs @ ys) = ys"
proof -
  have "takeWhile P ys = []" "dropWhile P ys = ys" using assms(2) by (cases ys; simp)+
  then show ?thesis using assms(1) by (simp add: takeWhile_append2 dropWhile_append2)
qed

theorem Collapsed_AddTombstone_idempotent:
  fixes t :: "'k::linorder RangeTombstone"
  assumes asc: "ascending m" and ne: "start_key t < end_key t"
  shows "Collapsed_AddTombstone Compare_of_order t (Collapsed_AddTombstone Compare_of_order t m) = Collapsed_AddTombstone Compare_of_order t m"
proof -
  let ?a = "start_key t" and ?b = "end_key t" and ?q = "seq t"
  define front where "front = takeWhile (\<lambda>e. fst e \<le> ?a) m"
  define rest where "rest = dropWhile (\<lambda>e. fst e \<le> ?a) m"
  define front1 where
    "front1 = (if prev_seq front < ?q then map_assign ?a ?q front else front)"
  define es1 where "es1 = (if prev_seq front < ?q then prev_seq front else 0)"
  obtain f2 es2 r2 where loop: "AddTombstone_loop Compare_of_order t front1 es1 rest = (f2, es2, r2)"
    by (cases "AddTombstone_loop Compare_of_order t front1 es1 rest") auto
  have add: "Collapsed_AddTombstone Compare_of_order t m = AddTombstone_end t f2 es2 r2"
    unfolding Collapsed_AddTombstone_unfold Let_def front_def [symmetric] rest_def [symmetric]
      front1_def [symmetric] es1_def [symmetric] loop
    by simp
  note st = start_step [OF asc, of t, folded front_def rest_def, folded front1_def]
  have af: "ascending front" using asc st(1) by (simp add: ascending_append)
  have lt_b: "\<forall>e \<in> set front1. fst e < ?b" using st(4) ne by auto
  from loop_tail [OF loop lt_b] have tail: "\<forall>e \<in> set f2. fst e < ?b"
    "r2 = [] \<or> ?b \<le> fst (hd r2)" by blast+
  from loop_produced [OF loop st(3)] obtain P where P: "f2 = front1 @ P"
    "\<forall>e \<in> set P. ?a < fst e \<and> fst e < ?b \<and> \<not> snd e < ?q" by blast
  define Y where "Y = (if ?q = prev_seq f2 then map_emplace ?b es2 r2 else r2)"
  have m1: "AddTombstone_end t f2 es2 r2 = front1 @ (P @ Y)"
    using map_emplace_front [OF tail(1), of es2 r2] by (simp add: AddTombstone_end_def Y_def P(1))
  have Yhd: "Y = [] \<or> ?b \<le> fst (hd Y)"
    using tail(2) map_emplace_head [OF tail(2), of es2] by (auto simp: Y_def)
  have Yb: "\<exists>w ys. Y = (?b, w) # ys" if "?q = prev_seq f2"
    using that map_emplace_head [OF tail(2), of es2] by (auto simp: Y_def)
  have PY: "P @ Y = [] \<or> \<not> fst (hd (P @ Y)) \<le> ?a"
  proof (cases P)
    case Nil
    then show ?thesis using Yhd ne by auto
  next
    case (Cons e P')
    then show ?thesis using P(2) by auto
  qed
  from takeWhile_dropWhile_split [of front1 "\<lambda>e. fst e \<le> ?a" "P @ Y"] st(4) PY
  have cut: "takeWhile (\<lambda>e. fst e \<le> ?a) (front1 @ (P @ Y)) = front1"
    "dropWhile (\<lambda>e. fst e \<le> ?a) (front1 @ (P @ Y)) = P @ Y" by simp_all
  have no_raise: "\<not> prev_seq front1 < ?q"
  proof (cases "prev_seq front < ?q")
    case True
    from ascending_map_assign_last [OF af st(2), of ?q]
    have "prev_seq (map_assign ?a ?q front) = ?q" by (simp add: prev_seq_def)
    then show ?thesis using True by (simp add: front1_def)
  next
    case False
    then show ?thesis by (simp add: front1_def)
  qed
  have Y2: "Y = [] \<or> \<not> fst (hd Y) < ?b" using Yhd by auto
  have P2: "\<forall>e \<in> set P. fst e < ?b \<and> \<not> snd e < ?q" using P(2) by simp
  have loop2: "AddTombstone_loop Compare_of_order t front1 0 (P @ Y) = (front1 @ P, 0, Y)"
    by (rule loop_keep [OF P2 Y2])
  have "Collapsed_AddTombstone Compare_of_order t (front1 @ (P @ Y)) = AddTombstone_end t f2 0 Y"
    unfolding Collapsed_AddTombstone_unfold Let_def cut using no_raise loop2 by (simp add: P(1))
  also have "\<dots> = f2 @ Y"
  proof (cases "?q = prev_seq f2")
    case True
    from Yb [OF True] obtain w ys where "Y = (?b, w) # ys" by blast
    then show ?thesis
      using True map_emplace_front [OF tail(1), of 0 Y] by (simp add: AddTombstone_end_def)
  next
    case False
    then show ?thesis by (simp add: AddTombstone_end_def)
  qed
  finally show ?thesis unfolding add m1 by (simp add: P(1))
qed

text \<open>
  Two facts about the uncollapsed map: an empty tombstone changes no answer, and a
  tombstone added again is stored again.
\<close>

lemma Uncollapsed_empty_tombstone_inert:
  assumes "start_sorted us" "start_key t = end_key t"
  shows "Uncollapsed_ShouldDelete Compare_of_order (Uncollapsed_AddTombstone Compare_of_order t us) parsed kFullScan
       = Uncollapsed_ShouldDelete Compare_of_order us parsed kFullScan"
  using assms Uncollapsed_scan_iff [OF start_sorted_multiset_emplace [OF assms(1), of t], of parsed]
    Uncollapsed_scan_iff [OF assms(1), of parsed]
  by (auto simp: Uncollapsed_ShouldDelete_def Uncollapsed_AddTombstone_def set_multiset_emplace)

lemma length_multiset_emplace: "length (multiset_emplace Compare_of_order t us) = Suc (length us)"
  by (induction us) auto

lemma count_multiset_emplace: "count_list (multiset_emplace Compare_of_order t us) t = Suc (count_list us t)"
  by (induction us) auto

lemma Uncollapsed_AddTombstone_duplicate:
  "Uncollapsed_Size (Uncollapsed_AddTombstone Compare_of_order t us) = Uncollapsed_Size us + 1
   \<and> count_list (Uncollapsed_AddTombstone Compare_of_order t (Uncollapsed_AddTombstone Compare_of_order t us)) t
     = count_list us t + 2"
  by (simp add: Uncollapsed_Size_def Uncollapsed_AddTombstone_def length_multiset_emplace
      count_multiset_emplace)

end
